theory Spec2Isabelle
  imports Main "HOL-Library.Char_ord" "HOL-Library.List_Lexorder"
    "HOL-Library.Product_Lexorder" "HOL-Library.Multiset" "HOL-Library.Monad_Syntax"
begin

section \<open>The topic queue store (topics.py)\<close>

subsection \<open>Topics and the persisted file\<close>

text \<open>
  The dataclass \<^verbatim>\<open>Topic\<close> of topics.py: six fields, all annotated \<^verbatim>\<open>str\<close>.
  The fields \<^verbatim>\<open>source\<close>, \<^verbatim>\<open>status\<close> and \<^verbatim>\<open>added\<close> have defaults
  (the empty string, \<^verbatim>\<open>"pending"\<close>, and the clock at construction time).
\<close>

record topic =
  title :: string
  kind :: string
  target :: string
  source :: string
  status :: string
  added :: string

text \<open>
  What \<^verbatim>\<open>json.load\<close> hands back: a JSON value. An object is the Python dict as an
  association list in insertion order (\<^verbatim>\<open>json.load\<close> has already resolved repeated
  keys, so the keys of an object are distinct); it is read with \<open>map_of\<close>. Numbers are
  the integers; a float takes the same paths as an integer everywhere below.
\<close>

datatype json =
    JNull
  | JBool bool
  | JNum int
  | JStr string
  | JArr "json list"
  | JObj "(string \<times> json) list"

text \<open>
  The file \<^verbatim>\<open>topics.json\<close> of one output directory: absent (\<^verbatim>\<open>os.path.isfile\<close> is
  false), present with text that \<^verbatim>\<open>json.load\<close> rejects, or present with a JSON value.
  \<^verbatim>\<open>json.load\<close> rejects text that is not JSON with \<^verbatim>\<open>JSONDecodeError\<close> (and bytes
  that are not UTF-8 with \<^verbatim>\<open>UnicodeDecodeError\<close>; the two are not told apart here).
\<close>

datatype file_state = NoFile | Garbled | Parsed json

datatype py_error = JSONDecodeError | TypeError | OSError

text \<open>
  The result of a call: it raises, it returns, or (\<open>OffType\<close>) it went on with a
  \<^verbatim>\<open>Topic\<close> one of whose fields holds a value that is not a \<^verbatim>\<open>str\<close>. Python does
  not check the annotations, so such a call does not raise in \<^verbatim>\<open>load_queue\<close>; the
  record type \<open>topic\<close> cannot hold the value, and what the program does with it is
  not modelled.
\<close>

datatype 'a outcome = Raises py_error | Returns 'a | OffType

definition topic_fields :: "string list" where
  "topic_fields = [''title'', ''kind'', ''target'', ''source'', ''status'', ''added'']"

definition required_fields :: "string list" where
  "required_fields = [''title'', ''kind'', ''target'']"

fun is_str :: "json \<Rightarrow> bool" where
  "is_str (JStr s) = True"
| "is_str _ = False"

fun str_of :: "json \<Rightarrow> string" where
  "str_of (JStr s) = s"
| "str_of _ = []"

definition field_or :: "(string \<times> json) list \<Rightarrow> string \<Rightarrow> string \<Rightarrow> string" where
  "field_or kvs k dflt = (case map_of kvs k of None \<Rightarrow> dflt | Some v \<Rightarrow> str_of v)"

text \<open>
  \<^verbatim>\<open>Topic(**item)\<close> at clock value \<open>now\<close>. The argument after \<^verbatim>\<open>**\<close> must be a
  mapping; a key that is no field is an unexpected keyword argument; a missing
  \<^verbatim>\<open>title\<close>, \<^verbatim>\<open>kind\<close> or \<^verbatim>\<open>target\<close> is a missing positional argument: each is a
  \<^verbatim>\<open>TypeError\<close>.
\<close>

definition make_topic :: "string \<Rightarrow> json \<Rightarrow> topic outcome" where
  "make_topic now item =
     (case item of
        JObj kvs \<Rightarrow>
          if \<not> list_all (\<lambda>kv. fst kv \<in> set topic_fields) kvs then Raises TypeError
          else if \<not> list_all (\<lambda>k. map_of kvs k \<noteq> None) required_fields then Raises TypeError
          else if \<not> list_all (\<lambda>kv. is_str (snd kv)) kvs then OffType
          else Returns \<lparr> title = field_or kvs ''title'' [],
                         kind = field_or kvs ''kind'' [],
                         target = field_or kvs ''target'' [],
                         source = field_or kvs ''source'' [],
                         status = field_or kvs ''status'' ''pending'',
                         added = field_or kvs ''added'' now \<rparr>
      | _ \<Rightarrow> Raises TypeError)"

text \<open>
  \<^verbatim>\<open>for item in data\<close>: a list yields its elements, a dict its keys, a string its
  characters; \<^verbatim>\<open>None\<close>, a bool and a number are not iterable.
\<close>

fun py_iter :: "json \<Rightarrow> json list outcome" where
  "py_iter (JArr xs) = Returns xs"
| "py_iter (JObj kvs) = Returns (map (\<lambda>kv. JStr (fst kv)) kvs)"
| "py_iter (JStr s) = Returns (map (\<lambda>c. JStr [c]) s)"
| "py_iter _ = Raises TypeError"

text \<open>
  The list comprehension \<^verbatim>\<open>[Topic(**item) for item in data]\<close>, left to right: the
  first item that raises ends it. An item with a non-string field does not raise, so
  a later item may still do so.
\<close>

fun make_topics :: "string \<Rightarrow> json list \<Rightarrow> topic list outcome" where
  "make_topics now [] = Returns []"
| "make_topics now (item # items) =
     (case make_topic now item of
        Raises e \<Rightarrow> Raises e
      | OffType \<Rightarrow> (case make_topics now items of Raises e \<Rightarrow> Raises e | _ \<Rightarrow> OffType)
      | Returns t \<Rightarrow>
          (case make_topics now items of
             Raises e \<Rightarrow> Raises e
           | OffType \<Rightarrow> OffType
           | Returns ts \<Rightarrow> Returns (t # ts)))"

definition load_queue :: "string \<Rightarrow> file_state \<Rightarrow> topic list outcome" where
  "load_queue now fs =
     (case fs of
        NoFile \<Rightarrow> Returns []
      | Garbled \<Rightarrow> Raises JSONDecodeError
      | Parsed data \<Rightarrow>
          (case py_iter data of
             Raises e \<Rightarrow> Raises e
           | OffType \<Rightarrow> OffType
           | Returns items \<Rightarrow> make_topics now items))"

text \<open>\<^verbatim>\<open>dataclasses.asdict\<close>: the six fields in declaration order.\<close>

definition asdict :: "topic \<Rightarrow> json" where
  "asdict t = JObj [(''title'', JStr (title t)), (''kind'', JStr (kind t)),
                    (''target'', JStr (target t)), (''source'', JStr (source t)),
                    (''status'', JStr (status t)), (''added'', JStr (added t))]"

text \<open>
  \<^verbatim>\<open>save_queue\<close> replaces the file by the dump of the queue. The file is kept as the
  JSON value it holds, so the indentation of the dump is not part of the state;
  a failing \<^verbatim>\<open>open\<close> or \<^verbatim>\<open>makedirs\<close> is not modelled.
\<close>

definition save_queue :: "topic list \<Rightarrow> file_state" where
  "save_queue queue = Parsed (JArr (map asdict queue))"

subsection \<open>Queue operations\<close>

text \<open>
  The loop of \<^verbatim>\<open>add_topics\<close>, with its three variables \<^verbatim>\<open>queue\<close>,
  \<^verbatim>\<open>existing_targets\<close> and \<^verbatim>\<open>added\<close>.
\<close>

fun add_loop :: "topic list \<Rightarrow> string set \<Rightarrow> int \<Rightarrow> topic list \<Rightarrow> topic list \<times> string set \<times> int" where
  "add_loop queue existing_targets n [] = (queue, existing_targets, n)"
| "add_loop queue existing_targets n (t # ts) =
     (if target t \<notin> existing_targets
      then add_loop (queue @ [t]) (insert (target t) existing_targets) (n + 1) ts
      else add_loop queue existing_targets n ts)"

definition add_topics :: "string \<Rightarrow> file_state \<Rightarrow> topic list \<Rightarrow> int outcome \<times> file_state" where
  "add_topics now fs topics =
     (case load_queue now fs of
        Raises e \<Rightarrow> (Raises e, fs)
      | OffType \<Rightarrow> (OffType, fs)
      | Returns queue \<Rightarrow>
          (case add_loop queue (target ` set queue) 0 topics of
             (queue', existing_targets, n) \<Rightarrow>
               if n \<noteq> 0 then (Returns n, save_queue queue') else (Returns n, fs)))"

text \<open>
  The loop of \<^verbatim>\<open>pop_next\<close> over the loaded queue: \<open>seen\<close> are the topics already
  passed. At the first pending topic it yields the queue with that topic marked, and
  the marked topic (the object the function returns has been mutated).
\<close>

fun pop_loop :: "topic list \<Rightarrow> topic list \<Rightarrow> (topic list \<times> topic) option" where
  "pop_loop seen [] = None"
| "pop_loop seen (t # ts) =
     (if status t = ''pending''
      then Some (seen @ t\<lparr>status := ''done''\<rparr> # ts, t\<lparr>status := ''done''\<rparr>)
      else pop_loop (seen @ [t]) ts)"

definition pop_next :: "string \<Rightarrow> file_state \<Rightarrow> topic option outcome \<times> file_state" where
  "pop_next now fs =
     (case load_queue now fs of
        Raises e \<Rightarrow> (Raises e, fs)
      | OffType \<Rightarrow> (OffType, fs)
      | Returns queue \<Rightarrow>
          (case pop_loop [] queue of
             Some (queue', t) \<Rightarrow> (Returns (Some t), save_queue queue')
           | None \<Rightarrow> (Returns None, fs)))"

definition pending_positions :: "topic list \<Rightarrow> nat list" where
  "pending_positions queue = filter (\<lambda>i. status (queue ! i) = ''pending'') [0..<length queue]"

definition skip_topic :: "string \<Rightarrow> file_state \<Rightarrow> int \<Rightarrow> bool outcome \<times> file_state" where
  "skip_topic now fs index =
     (case load_queue now fs of
        Raises e \<Rightarrow> (Raises e, fs)
      | OffType \<Rightarrow> (OffType, fs)
      | Returns queue \<Rightarrow>
          (let pending = pending_positions queue in
           if index < 0 \<or> index \<ge> int (length pending) then (Returns False, fs)
           else (Returns True,
                 save_queue (queue[pending ! nat index :=
                                     (queue ! (pending ! nat index))\<lparr>status := ''skipped''\<rparr>]))))"

definition pending_count :: "string \<Rightarrow> file_state \<Rightarrow> int outcome" where
  "pending_count now fs =
     (case load_queue now fs of
        Raises e \<Rightarrow> Raises e
      | OffType \<Rightarrow> OffType
      | Returns queue \<Rightarrow> Returns (int (length (filter (\<lambda>t. status t = ''pending'') queue))))"

subsection \<open>Definitions used to state the properties of the store\<close>

text \<open>
  The claim's words for what \<^verbatim>\<open>add\<close> appends: the input topics whose target is
  neither the target of a topic already in the queue nor the target of an earlier topic
  of the same input list, in input order.
\<close>

definition spec_is_new :: "topic list \<Rightarrow> topic list \<Rightarrow> nat \<Rightarrow> bool" where
  "spec_is_new queue topics i \<longleftrightarrow>
     target (topics ! i) \<notin> target ` set queue \<and>
     (\<forall>j<i. target (topics ! j) \<noteq> target (topics ! i))"

definition spec_new_topics :: "topic list \<Rightarrow> topic list \<Rightarrow> topic list" where
  "spec_new_topics queue topics =
     map ((!) topics) (filter (spec_is_new queue topics) [0..<length topics])"

text \<open>The appended topics, computed as the loop of \<^verbatim>\<open>add_topics\<close> does.\<close>

fun fresh :: "string set \<Rightarrow> topic list \<Rightarrow> topic list" where
  "fresh E [] = []"
| "fresh E (t # ts) = (if target t \<in> E then fresh E ts else t # fresh (insert (target t) E) ts)"

text \<open>Successive calls of \<^verbatim>\<open>pop_next\<close>, one per clock value, with their results.\<close>

fun pop_many :: "string list \<Rightarrow> file_state \<Rightarrow> topic option outcome list \<times> file_state" where
  "pop_many [] fs = ([], fs)"
| "pop_many (now # nows) fs =
     (case pop_next now fs of
        (r, fs') \<Rightarrow> (case pop_many nows fs' of (rs, fs'') \<Rightarrow> (r # rs, fs'')))"

text \<open>
  The permitted change of a queue: nothing is removed, and a stored topic is either
  untouched or was pending and has only its status set to \<open>s\<close>.
\<close>

definition spec_moved :: "string \<Rightarrow> topic list \<Rightarrow> topic list \<Rightarrow> bool" where
  "spec_moved s q q' \<longleftrightarrow>
     length q \<le> length q' \<and>
     (\<forall>i<length q. q' ! i = q ! i \<or>
        (status (q ! i) = ''pending'' \<and> q' ! i = (q ! i)\<lparr>status := s\<rparr>))"

text \<open>
  The persisted layout in the specification's words: an array of Topic records,
  each with the six fields, holding strings.
\<close>

definition spec_topic_record :: "json \<Rightarrow> bool" where
  "spec_topic_record item =
     (case item of
        JObj kvs \<Rightarrow> set (map fst kvs) = set topic_fields \<and> list_all (\<lambda>kv. is_str (snd kv)) kvs
      | _ \<Rightarrow> False)"

definition spec_topic_schema :: "json \<Rightarrow> bool" where
  "spec_topic_schema data =
     (case data of JArr items \<Rightarrow> list_all spec_topic_record items | _ \<Rightarrow> False)"

text \<open>
  The items \<^verbatim>\<open>Topic(**item)\<close> does not reject: a mapping whose keys are field names and
  that has the three fields without default.
\<close>

definition accepts_kwargs :: "json \<Rightarrow> bool" where
  "accepts_kwargs item =
     (case item of
        JObj kvs \<Rightarrow> list_all (\<lambda>kv. fst kv \<in> set topic_fields) kvs \<and>
                    list_all (\<lambda>k. map_of kvs k \<noteq> None) required_fields
      | _ \<Rightarrow> False)"

text \<open>The value a persisted record holds under a key.\<close>

fun obj_get :: "json \<Rightarrow> string \<Rightarrow> json option" where
  "obj_get (JObj kvs) k = map_of kvs k"
| "obj_get _ k = None"

text \<open>Example topics.\<close>

definition tA :: topic where
  "tA = \<lparr>title = ''First'', kind = ''file'', target = ''src/a.py'', source = [],
          status = ''pending'', added = ''t0''\<rparr>"

definition tB :: topic where
  "tB = \<lparr>title = ''Dup'', kind = ''function'', target = ''src/a.py'', source = ''x'',
          status = ''pending'', added = ''t1''\<rparr>"

definition tC :: topic where
  "tC = \<lparr>title = ''Third'', kind = ''file'', target = ''src/c.py'', source = [],
          status = ''pending'', added = ''t1''\<rparr>"


text \<open>A persisted queue whose one record leaves out the fields that have defaults.\<close>

definition partial_file :: file_state where
  "partial_file = Parsed (JArr [JObj [(''title'', JStr ''A''), (''kind'', JStr ''file''),
                                      (''target'', JStr ''a.py'')]])"

definition partial_topic :: "string \<Rightarrow> topic" where
  "partial_topic now = \<lparr>title = ''A'', kind = ''file'', target = ''a.py'', source = [],
                          status = ''pending'', added = now\<rparr>"

section \<open>The symbol extractor (git\_utils.py)\<close>

subsection \<open>Strings\<close>

text \<open>
  Text is a list of 8-bit characters: the UTF-8 encoding of the Python string, so an
  ASCII code point is one character and any other code point is a run of characters
  from 128 up. The whitespace that \<^verbatim>\<open>str.lstrip\<close>, \<^verbatim>\<open>str.strip\<close> and the pattern
  \<^verbatim>\<open>\s\<close> recognise among the ASCII code points is tab, line feed, vertical tab, form
  feed, carriage return, the four separators 28 to 31 and the space. Whitespace beyond
  ASCII is not modelled; lengths are taken of runs of ASCII whitespace only, where
  characters and code points agree.
\<close>

definition is_space :: "char \<Rightarrow> bool" where
  "is_space c \<longleftrightarrow> (let n = (of_char c :: nat) in (9 \<le> n \<and> n \<le> 13) \<or> (28 \<le> n \<and> n \<le> 32))"

definition lstrip :: "string \<Rightarrow> string" where
  "lstrip s = dropWhile is_space s"

definition strip :: "string \<Rightarrow> string" where
  "strip s = rev (dropWhile is_space (rev (dropWhile is_space s)))"

text \<open>\<^verbatim>\<open>str.startswith\<close>.\<close>

definition startswith :: "string \<Rightarrow> string \<Rightarrow> bool" where
  "startswith s p \<longleftrightarrow> take (length p) s = p"

text \<open>\<^verbatim>\<open>content.split("\n")\<close> and \<^verbatim>\<open>"\n".join(lines)\<close>.\<close>

fun split_lines :: "string \<Rightarrow> string list" where
  "split_lines [] = [[]]"
| "split_lines (c # cs) =
     (if c = CHR 0x0A then [] # split_lines cs
      else (case split_lines cs of [] \<Rightarrow> [[c]] | l # ls \<Rightarrow> (c # l) # ls))"

fun join_lines :: "string list \<Rightarrow> string" where
  "join_lines [] = []"
| "join_lines [l] = l"
| "join_lines (l # ls) = l @ CHR 0x0A # join_lines ls"

subsection \<open>extract\_symbol\<close>

text \<open>The seven prefixes that begin a definition of \<open>symbol\<close>.\<close>

definition is_def_line :: "string \<Rightarrow> string \<Rightarrow> bool" where
  "is_def_line symbol stripped \<longleftrightarrow>
     startswith stripped (''def '' @ symbol @ ''('')
     \<or> startswith stripped (''def '' @ symbol @ '' ('')
     \<or> startswith stripped (''class '' @ symbol @ ''('')
     \<or> startswith stripped (''class '' @ symbol @ '':'')
     \<or> startswith stripped (''class '' @ symbol @ '' ('')
     \<or> startswith stripped (''async def '' @ symbol @ ''('')
     \<or> startswith stripped (''async def '' @ symbol @ '' ('')"

text \<open>
  The \<^verbatim>\<open>for line in lines\<close> loop with its variables \<^verbatim>\<open>capturing\<close>,
  \<^verbatim>\<open>base_indent\<close> and \<^verbatim>\<open>result_lines\<close>; the result is the value of
  \<^verbatim>\<open>result_lines\<close> when the loop is left, by \<^verbatim>\<open>break\<close> or at the last line.
  \<^verbatim>\<open>base_indent\<close> is \<^verbatim>\<open>None\<close> until a definition is found and is not read before;
  it starts as 0 here. At the definition line the source runs
  \<^verbatim>\<open>while result_lines and result_lines[-1].strip().startswith("@"): pass\<close>,
  which never ends once its condition holds: that run is the value \<open>None\<close>.
\<close>

fun scan_lines :: "string \<Rightarrow> bool \<Rightarrow> nat \<Rightarrow> string list \<Rightarrow> string list \<Rightarrow> string list option" where
  "scan_lines symbol capturing base_indent result_lines [] = Some result_lines"
| "scan_lines symbol capturing base_indent result_lines (line # lines) =
     (let stripped = lstrip line in
      if \<not> capturing \<and> is_def_line symbol stripped then
        (if result_lines \<noteq> [] \<and> startswith (strip (last result_lines)) ''@'' then None
         else scan_lines symbol True (length line - length stripped) (result_lines @ [line]) lines)
      else if capturing then
        (if stripped = [] then scan_lines symbol capturing base_indent (result_lines @ [line]) lines
         else if length line - length stripped \<le> base_indent \<and> stripped \<noteq> []
                 \<and> \<not> startswith stripped ''#''
         then Some result_lines
         else scan_lines symbol capturing base_indent (result_lines @ [line]) lines)
      else scan_lines symbol capturing base_indent result_lines lines)"

text \<open>
  \<open>content\<close> is what \<^verbatim>\<open>get_file_content\<close> returned: \<open>None\<close> for a file that is
  missing or not UTF-8. The outer \<open>option\<close> of the result is \<open>None\<close> when the call
  does not return; the inner one is the value returned.
\<close>

definition extract_symbol :: "string option \<Rightarrow> string \<Rightarrow> string option option" where
  "extract_symbol content symbol =
     (case content of
        None \<Rightarrow> Some None
      | Some text \<Rightarrow>
          (case scan_lines symbol False 0 [] (split_lines text) of
             None \<Rightarrow> None
           | Some result_lines \<Rightarrow>
               if result_lines = [] then Some None else Some (Some (join_lines result_lines))))"

subsection \<open>Definitions used to state the properties of the extractor\<close>

text \<open>The indentation of a line, as the loop computes it.\<close>

definition indent :: "string \<Rightarrow> nat" where
  "indent line = length line - length (lstrip line)"

text \<open>
  The lines that end capturing in the claim's words, where a comment line at or below
  the base indentation ends it too: the non-blank lines indented no deeper than the
  definition.
\<close>

definition spec_ends_capture :: "nat \<Rightarrow> string \<Rightarrow> bool" where
  "spec_ends_capture base_indent line \<longleftrightarrow> lstrip line \<noteq> [] \<and> indent line \<le> base_indent"

text \<open>The lines that end capturing in the source: the same, comment lines excepted.\<close>

definition ends_capture :: "nat \<Rightarrow> string \<Rightarrow> bool" where
  "ends_capture base_indent line \<longleftrightarrow>
     lstrip line \<noteq> [] \<and> indent line \<le> base_indent \<and> \<not> startswith (lstrip line) ''#''"

text \<open>A file with a comment line at the indentation of the definition, inside its body.\<close>

definition commented_source :: string where
  "commented_source =
     join_lines [''import os'', ''def f():'', ''    a = 1'', ''# note'', ''    return a'', ''x = f()'', '''']"

text \<open>The symbol extraction scenario of the specification.\<close>

definition hello_source :: string where
  "hello_source =
     join_lines [''def hello(name):'', ''    return name'', [], ''def other():'', ''    pass'', []]"

section \<open>The tree builder (git\_utils.py)\<close>

text \<open>
  What the builder can see of a path: a regular file, something that is neither a file
  nor a directory (a broken link, a socket), a directory with the entries
  \<^verbatim>\<open>iterdir\<close> yields (name and node, in the order of the operating system), or a
  directory that \<^verbatim>\<open>iterdir\<close> may not read.
\<close>

datatype node = File | Other | Dir "(string \<times> node) list" | Denied

fun is_dir :: "node \<Rightarrow> bool" where
  "is_dir (Dir listing) = True"
| "is_dir Denied = True"
| "is_dir _ = False"

fun is_file :: "node \<Rightarrow> bool" where
  "is_file File = True"
| "is_file _ = False"

definition skip_dirs :: "string list" where
  "skip_dirs = [''.git'', ''.hg'', ''.svn'', ''node_modules'', ''__pycache__'',
                ''.tox'', ''.venv'', ''venv'', ''.env'', ''env'', ''.eggs'',
                ''dist'', ''build'', ''.mypy_cache'', ''.pytest_cache'',
                ''.ruff_cache'', ''htmlcov'', ''.coverage'', ''*.egg-info'']"

definition skip_suffixes :: "string list" where
  "skip_suffixes = [''.pyc'', ''.pyo'', ''.so'', ''.o'', ''.a'', ''.dylib'']"

text \<open>\<^verbatim>\<open>str.endswith\<close>.\<close>

definition endswith :: "string \<Rightarrow> string \<Rightarrow> bool" where
  "endswith s p \<longleftrightarrow> length p \<le> length s \<and> drop (length s - length p) s = p"

text \<open>
  \<^verbatim>\<open>PurePath.suffix\<close> of a name: with \<open>i\<close> the place of the last dot
  (\<^verbatim>\<open>name.rfind('.')\<close>), the name from \<open>i\<close> on when \<open>0 < i < len(name) - 1\<close>, and the
  empty string otherwise (no dot, a leading dot only, a trailing dot).
\<close>

definition suffix_of :: "string \<Rightarrow> string" where
  "suffix_of name =
     (if CHR ''.'' \<notin> set name then []
      else (let i = length name - length (takeWhile (\<lambda>c. c \<noteq> CHR ''.'') (rev name)) - 1
            in if 0 < i \<and> int i < int (length name) - 1 then drop i name else []))"

text \<open>The four \<^verbatim>\<open>continue\<close> tests of the filter loop.\<close>

definition skipped :: "string \<times> node \<Rightarrow> bool" where
  "skipped entry \<longleftrightarrow>
     (startswith (fst entry) ''.'' \<and> fst entry \<in> set skip_dirs)
     \<or> (is_dir (snd entry) \<and> fst entry \<in> set skip_dirs)
     \<or> (is_dir (snd entry) \<and> endswith (fst entry) ''.egg-info'')
     \<or> (is_file (snd entry) \<and> suffix_of (fst entry) \<in> set skip_suffixes)"

text \<open>
  \<^verbatim>\<open>sorted(dir_path.iterdir(), key=lambda e: (not e.is_dir(), e.name))\<close>, then the
  filter. The order on the keys is that of Python's tuples: \<open>False\<close> before \<open>True\<close>,
  then the names by code point.
\<close>

definition sort_entries :: "(string \<times> node) list \<Rightarrow> (string \<times> node) list" where
  "sort_entries listing = sort_key (\<lambda>e. (\<not> is_dir (snd e), fst e)) listing"

definition filtered_entries :: "(string \<times> node) list \<Rightarrow> (string \<times> node) list" where
  "filtered_entries listing = filter (\<lambda>e. \<not> skipped e) (sort_entries listing)"

text \<open>The connectors and the two continuations of the prefix, in UTF-8.\<close>

definition tee :: string where
  "tee = [CHR 0xE2, CHR 0x94, CHR 0x9C, CHR 0xE2, CHR 0x94, CHR 0x80,
          CHR 0xE2, CHR 0x94, CHR 0x80, CHR 0x20]"

definition elbow :: string where
  "elbow = [CHR 0xE2, CHR 0x94, CHR 0x94, CHR 0xE2, CHR 0x94, CHR 0x80,
            CHR 0xE2, CHR 0x94, CHR 0x80, CHR 0x20]"

definition pipe :: string where
  "pipe = [CHR 0xE2, CHR 0x94, CHR 0x82, CHR 0x20, CHR 0x20, CHR 0x20]"

definition blank :: string where
  "blank = ''    ''"

text \<open>
  \<^verbatim>\<open>_walk\<close>, returning the lines it appends to \<^verbatim>\<open>lines\<close>. It is called on
  directories only; \<^verbatim>\<open>PermissionError\<close> from \<^verbatim>\<open>iterdir\<close> is caught and ends the call.
\<close>

function walk :: "int \<Rightarrow> node \<Rightarrow> string \<Rightarrow> int \<Rightarrow> string list" where
  "walk max_depth dir_path prefix depth =
     (if depth > max_depth then []
      else (case dir_path of
              Dir listing \<Rightarrow>
                (let filtered = filtered_entries listing
                 in concat (map (\<lambda>(i, entry).
                      (let is_last = (int i = int (length filtered) - 1)
                       in (prefix @ (if is_last then elbow else tee) @ fst entry) #
                          (if is_dir (snd entry)
                           then walk max_depth (snd entry)
                                  (prefix @ (if is_last then blank else pipe)) (depth + 1)
                           else [])))
                    (enumerate 0 filtered)))
            | _ \<Rightarrow> []))"
  by pat_completeness auto
termination
  by (relation "measure (\<lambda>(max_depth, dir_path, prefix, depth). nat (max_depth + 1 - depth))") auto

text \<open>
  \<^verbatim>\<open>get_repo_structure\<close> on a root with the name \<open>root_name\<close>. On a root that is no
  directory \<^verbatim>\<open>iterdir\<close> raises an \<^verbatim>\<open>OSError\<close> (\<^verbatim>\<open>NotADirectoryError\<close> or
  \<^verbatim>\<open>FileNotFoundError\<close>), which is not caught, unless \<open>max_depth\<close> is below 1 and the
  root is never read.
\<close>

definition get_repo_structure :: "string \<Rightarrow> node \<Rightarrow> int \<Rightarrow> string outcome" where
  "get_repo_structure root_name root max_depth =
     (if 1 \<le> max_depth \<and> \<not> is_dir root then Raises OSError
      else Returns (join_lines ((root_name @ ''/'') # walk max_depth root [] 1)))"

subsection \<open>Definitions used to state the properties of the tree builder\<close>

text \<open>
  Exclusion in the claim's words: the name is in the exclusion set, or the entry is a
  file with an excluded suffix.
\<close>

definition spec_excluded :: "string \<times> node \<Rightarrow> bool" where
  "spec_excluded entry \<longleftrightarrow>
     fst entry \<in> set skip_dirs \<or> (is_file (snd entry) \<and> suffix_of (fst entry) \<in> set skip_suffixes)"

text \<open>The root of the scenario: \<^verbatim>\<open>.git/\<close>, \<^verbatim>\<open>src/app.py\<close> and \<^verbatim>\<open>README.md\<close>.\<close>

definition scenario_root :: node where
  "scenario_root = Dir [(''README.md'', File), (''.git'', Dir [(''objects'', Dir [])]),
                        (''src'', Dir [(''app.py'', File)])]"

section \<open>The topic parser (topics.py)\<close>

subsection \<open>Character classes and pattern pieces\<close>

text \<open>
  The two patterns of the parser are embedded as matchers on the text, piece by piece.
  Python's matcher backtracks; each piece below is followed in its pattern by a piece
  that cannot start with a character the piece itself accepts, so the longest run is the
  only one that can lead to a match, except at two places that are written out
  (\<open>end_heading\<close> and \<open>match_title\<close>).

  Among the ASCII code points, \<^verbatim>\<open>\w\<close> is a letter, a digit or the underscore, and
  \<^verbatim>\<open>IGNORECASE\<close> and \<^verbatim>\<open>str.lower\<close> fold \<open>A\<close> to \<open>Z\<close>. Characters from 128 up (parts of
  code points beyond ASCII) are taken as they are: neither whitespace nor word characters
  nor case variants of a letter. So the model is that of the source on every text in
  which no code point beyond ASCII is whitespace (U+0085, U+00A0, U+1680, U+2000 to
  U+200A, U+2028, U+2029, U+202F, U+205F, U+3000), stands in a bracketed kind, or is one
  of U+0130, U+0131 and U+017F, which \<^verbatim>\<open>IGNORECASE\<close> folds onto \<open>i\<close> and \<open>s\<close>.
\<close>

definition lower_char :: "char \<Rightarrow> char" where
  "lower_char c =
     (let n = (of_char c :: nat) in if 65 \<le> n \<and> n \<le> 90 then char_of (n + 32) else c)"

definition lower :: "string \<Rightarrow> string" where
  "lower s = map lower_char s"

definition is_word :: "char \<Rightarrow> bool" where
  "is_word c \<longleftrightarrow>
     (let n = (of_char c :: nat)
      in (48 \<le> n \<and> n \<le> 57) \<or> (65 \<le> n \<and> n \<le> 90) \<or> n = 95 \<or> (97 \<le> n \<and> n \<le> 122))"

text \<open>A greedy run \<^verbatim>\<open>P+\<close>: the run and the text after it.\<close>

definition many1 :: "(char \<Rightarrow> bool) \<Rightarrow> string \<Rightarrow> (string \<times> string) option" where
  "many1 P s = (if takeWhile P s = [] then None else Some (takeWhile P s, dropWhile P s))"

text \<open>A literal; under \<^verbatim>\<open>IGNORECASE\<close>, a literal given in lower case.\<close>

fun lit :: "string \<Rightarrow> string \<Rightarrow> string option" where
  "lit [] s = Some s"
| "lit (p # ps) [] = None"
| "lit (p # ps) (c # cs) = (if c = p then lit ps cs else None)"

fun lit_ci :: "string \<Rightarrow> string \<Rightarrow> string option" where
  "lit_ci [] s = Some s"
| "lit_ci (p # ps) [] = None"
| "lit_ci (p # ps) (c # cs) = (if lower_char c = p then lit_ci ps cs else None)"

text \<open>The optional \<^verbatim>\<open>s\<close> of \<^verbatim>\<open>Topics?\<close>.\<close>

fun opt_s :: "string \<Rightarrow> string" where
  "opt_s [] = []"
| "opt_s (c # cs) = (if lower_char c = CHR ''s'' then cs else c # cs)"

subsection \<open>The section\<close>

text \<open>
  The end \<^verbatim>\<open>\s*\n\<close> of the heading: the greedy \<^verbatim>\<open>\s*\<close> takes the whole run of
  whitespace and gives back until a line feed follows, so the heading ends with the last
  line feed of the run; the whitespace after it already belongs to the section.
\<close>

definition end_heading :: "string \<Rightarrow> string option" where
  "end_heading s =
     (let w = takeWhile is_space s
      in if CHR 0x0A \<in> set w
         then Some (rev (takeWhile (\<lambda>c. c \<noteq> CHR 0x0A) (rev w)) @ dropWhile is_space s)
         else None)"

text \<open>
  \<^verbatim>\<open>#+\s*Topics?\s+to\s+Explore\s*\n\<close> at the start of \<open>s\<close>: the text after the heading.
\<close>

definition match_heading :: "string \<Rightarrow> string option" where
  "match_heading s = do {
     (hashes, s1) \<leftarrow> many1 (\<lambda>c. c = CHR ''#'') s;
     s2 \<leftarrow> lit_ci ''topic'' (dropWhile is_space s1);
     (w1, s3) \<leftarrow> many1 is_space (opt_s s2);
     s4 \<leftarrow> lit_ci ''to'' s3;
     (w2, s5) \<leftarrow> many1 is_space s4;
     s6 \<leftarrow> lit_ci ''explore'' s5;
     end_heading s6
   }"

text \<open>
  The group \<^verbatim>\<open>(.*?)(?=\n#|\Z)\<close> under \<^verbatim>\<open>DOTALL\<close>: the shortest text after which a line
  feed and \<^verbatim>\<open>#\<close> follow, or the text ends.
\<close>

fun until_heading :: "string \<Rightarrow> string" where
  "until_heading [] = []"
| "until_heading [c] = [c]"
| "until_heading (c # d # cs) =
     (if c = CHR 0x0A \<and> d = CHR ''#'' then [] else c # until_heading (d # cs))"

text \<open>\<^verbatim>\<open>re.search\<close>: the match at the leftmost place where one starts; its group.\<close>

fun find_section :: "string \<Rightarrow> string option" where
  "find_section [] = None"
| "find_section (c # cs) =
     (case match_heading (c # cs) of
        Some after \<Rightarrow> Some (until_heading after)
      | None \<Rightarrow> find_section cs)"

subsection \<open>The topic lines\<close>

definition em_dash :: string where
  "em_dash = [CHR 0xE2, CHR 0x80, CHR 0x94]"

text \<open>The separator \<^verbatim>\<open>(?:\<emdash>|-|:)\<close>, the alternatives in order.\<close>

definition match_sep :: "string \<Rightarrow> string option" where
  "match_sep s =
     (case lit em_dash s of
        Some r \<Rightarrow> Some r
      | None \<Rightarrow> (case lit ''-'' s of Some r \<Rightarrow> Some r | None \<Rightarrow> lit '':'' s))"

text \<open>
  The end \<^verbatim>\<open>\s*(.+)$\<close> of a topic line, \<^verbatim>\<open>.\<close> being any character but the line feed:
  the title and the text after the match. After the run of whitespace the title runs to
  the end of its line. When the run reaches the end of the text, \<^verbatim>\<open>\s*\<close> gives back
  until a character other than the line feed follows, and that one character is the
  title.
\<close>

definition match_title :: "string \<Rightarrow> (string \<times> string) option" where
  "match_title s =
     (let w = takeWhile is_space s; r = dropWhile is_space s
      in if r \<noteq> [] then Some (takeWhile (\<lambda>c. c \<noteq> CHR 0x0A) r, dropWhile (\<lambda>c. c \<noteq> CHR 0x0A) r)
         else (case dropWhile (\<lambda>c. c = CHR 0x0A) (rev w) of
                 [] \<Rightarrow> None
               | c # keep \<Rightarrow> Some ([c], drop (Suc (length keep)) w)))"

text \<open>
  \<^verbatim>\<open>TOPIC_LINE_PATTERN\<close>, tried at a place where \<^verbatim>\<open>^\<close> holds: the three groups and the
  text after the match.
\<close>

definition TOPIC_LINE_PATTERN :: "string \<Rightarrow> (string \<times> string \<times> string \<times> string) option" where
  "TOPIC_LINE_PATTERN s = do {
     s1 \<leftarrow> (case s of [] \<Rightarrow> None
                      | c # cs \<Rightarrow> if c = CHR ''-'' \<or> c = CHR ''*'' then Some cs else None);
     (w1, s2) \<leftarrow> many1 is_space s1;
     s3 \<leftarrow> lit ''['' s2;
     (kind_token, s4) \<leftarrow> many1 is_word s3;
     s5 \<leftarrow> lit '']'' s4;
     (w2, s6) \<leftarrow> many1 is_space s5;
     s7 \<leftarrow> lit [CHR 0x60] s6;
     (target_text, s8) \<leftarrow> many1 (\<lambda>c. c \<noteq> CHR 0x60) s7;
     s9 \<leftarrow> lit [CHR 0x60] s8;
     s10 \<leftarrow> match_sep (dropWhile is_space s9);
     (title_text, rest) \<leftarrow> match_title s10;
     Some (kind_token, target_text, title_text, rest)
   }"

text \<open>Every piece leaves a final segment of its text, and a topic line is not empty.\<close>

lemma many1_shorter: "many1 P s = Some (run, r) \<Longrightarrow> length r \<le> length s"
  by (auto simp: many1_def length_dropWhile_le split: if_splits)

lemma lit_shorter: "lit p s = Some r \<Longrightarrow> length r \<le> length s"
  by (induction p s rule: lit.induct) (auto split: if_splits)

lemma match_sep_shorter: "match_sep s = Some r \<Longrightarrow> length r \<le> length s"
  by (auto simp: match_sep_def split: option.splits dest: lit_shorter)

lemma match_title_shorter: "match_title s = Some (d, r) \<Longrightarrow> length r \<le> length s"
proof -
  assume a: "match_title s = Some (d, r)"
  have w: "length (takeWhile is_space s) \<le> length s" by (rule length_takeWhile_le)
  have n: "length (dropWhile (\<lambda>c. c \<noteq> CHR 0x0A) (dropWhile is_space s)) \<le> length s"
    using length_dropWhile_le[of "\<lambda>c. c \<noteq> CHR 0x0A" "dropWhile is_space s"]
      length_dropWhile_le[of is_space s] by linarith
  show ?thesis
    using a w n by (auto simp: match_title_def Let_def split: if_splits list.splits)
qed

lemma TOPIC_LINE_PATTERN_shorter:
  assumes "TOPIC_LINE_PATTERN s = Some (k, t, d, r)"
  shows "length r < length s"
proof -
  from assms obtain c s1 w1 s2 s3 k' s4 s5 w2 s6 s7 t' s8 s9 s10 where
    s: "s = c # s1" and
    a: "many1 is_space s1 = Some (w1, s2)" "lit ''['' s2 = Some s3"
       "many1 is_word s3 = Some (k', s4)" "lit '']'' s4 = Some s5"
       "many1 is_space s5 = Some (w2, s6)" "lit [CHR 0x60] s6 = Some s7"
       "many1 (\<lambda>c. c \<noteq> CHR 0x60) s7 = Some (t', s8)" "lit [CHR 0x60] s8 = Some s9"
       "match_sep (dropWhile is_space s9) = Some s10" "match_title s10 = Some (d, r)"
    unfolding TOPIC_LINE_PATTERN_def
    by (auto simp: bind_eq_Some_conv split: list.splits if_splits)
  have "length r \<le> length s10" using a(10) by (rule match_title_shorter)
  also have "\<dots> \<le> length (dropWhile is_space s9)" using a(9) by (rule match_sep_shorter)
  also have "\<dots> \<le> length s9" by (rule length_dropWhile_le)
  also have "\<dots> \<le> length s8" using a(8) by (rule lit_shorter)
  also have "\<dots> \<le> length s7" using a(7) by (rule many1_shorter)
  also have "\<dots> \<le> length s6" using a(6) by (rule lit_shorter)
  also have "\<dots> \<le> length s5" using a(5) by (rule many1_shorter)
  also have "\<dots> \<le> length s4" using a(4) by (rule lit_shorter)
  also have "\<dots> \<le> length s3" using a(3) by (rule many1_shorter)
  also have "\<dots> \<le> length s2" using a(2) by (rule lit_shorter)
  also have "\<dots> \<le> length s1" using a(1) by (rule many1_shorter)
  finally show ?thesis using s by simp
qed

text \<open>
  \<^verbatim>\<open>TOPIC_LINE_PATTERN.finditer(section_text)\<close>: the matches from left to right, none
  overlapping another. \<open>bol\<close> says that \<^verbatim>\<open>^\<close> holds here (the text starts here or a
  line feed precedes). A match ends within a line, so \<^verbatim>\<open>^\<close> does not hold where the
  search resumes.
\<close>

function finditer :: "bool \<Rightarrow> string \<Rightarrow> (string \<times> string \<times> string) list" where
  "finditer bol [] = []"
| "finditer bol (c # cs) =
     (case (if bol then TOPIC_LINE_PATTERN (c # cs) else None) of
        Some (kind_token, target_text, title_text, rest) \<Rightarrow>
          (kind_token, target_text, title_text) # finditer False rest
      | None \<Rightarrow> finditer (c = CHR 0x0A) cs)"
  by pat_completeness auto
termination
  by (relation "measure (\<lambda>(bol, s). length s)")
    (auto split: if_splits dest: TOPIC_LINE_PATTERN_shorter)

definition TOPIC_KINDS :: "string list" where
  "TOPIC_KINDS = [''file'', ''function'', ''repo'', ''diff'', ''general'']"

text \<open>
  The body of the loop over the matches: one \<^verbatim>\<open>Topic\<close> per match. \<open>now\<close> is the clock
  at construction (one reading for the whole call).
\<close>

definition topic_of_match :: "string \<Rightarrow> string \<Rightarrow> string \<times> string \<times> string \<Rightarrow> topic" where
  "topic_of_match now src m =
     (case m of (kind_token, target_text, title_text) \<Rightarrow>
        \<lparr> title = strip title_text,
          kind = (if lower kind_token \<in> set TOPIC_KINDS then lower kind_token else ''general''),
          target = target_text,
          source = src,
          status = ''pending'',
          added = now \<rparr>)"

definition parse_topics_from_response :: "string \<Rightarrow> string \<Rightarrow> string \<Rightarrow> topic list" where
  "parse_topics_from_response now response src =
     (case find_section response of
        None \<Rightarrow> []
      | Some section_text \<Rightarrow> map (topic_of_match now src) (finditer True section_text))"

subsection \<open>Definitions used to state the properties of the parser\<close>

text \<open>
  A heading in the words of the specification, with its line end: one or more \<^verbatim>\<open>#\<close>,
  optional whitespace, \<^verbatim>\<open>Topic\<close> or \<^verbatim>\<open>Topics\<close>, whitespace, \<^verbatim>\<open>to\<close>, whitespace,
  \<^verbatim>\<open>Explore\<close> (letters in either case), optional whitespace, a line feed. It occurs in a
  text when the text is some text, the heading, some text.
\<close>

definition spec_heading :: "string \<Rightarrow> bool" where
  "spec_heading h \<longleftrightarrow>
     (\<exists>hashes w1 t sfx w2 t2 w3 t3 w4.
        h = hashes @ w1 @ t @ sfx @ w2 @ t2 @ w3 @ t3 @ w4 @ [CHR 0x0A]
        \<and> hashes \<noteq> [] \<and> (\<forall>c\<in>set hashes. c = CHR ''#'')
        \<and> (\<forall>c\<in>set w1. is_space c)
        \<and> lower t = ''topic'' \<and> (sfx = [] \<or> lower sfx = ''s'')
        \<and> w2 \<noteq> [] \<and> (\<forall>c\<in>set w2. is_space c)
        \<and> lower t2 = ''to''
        \<and> w3 \<noteq> [] \<and> (\<forall>c\<in>set w3. is_space c)
        \<and> lower t3 = ''explore''
        \<and> (\<forall>c\<in>set w4. is_space c))"

definition spec_heading_occurs :: "string \<Rightarrow> bool" where
  "spec_heading_occurs s \<longleftrightarrow> (\<exists>pre h post. s = pre @ h @ post \<and> spec_heading h)"

text \<open>
  The region as the source bounds it: the lines after the heading up to, but not
  including, the first line that begins with \<^verbatim>\<open>#\<close>.
\<close>

definition spec_region :: "string \<Rightarrow> string" where
  "spec_region after =
     join_lines (takeWhile (\<lambda>l. \<not> startswith l ''#'') (split_lines after))"

text \<open>
  The region as the claim bounds it, under a heading with \<open>k\<close> marks: up to, but not
  including, the next heading line with at most \<open>k\<close> marks (the same level or a higher
  one).
\<close>

definition spec_level :: "string \<Rightarrow> nat" where
  "spec_level l = length (takeWhile (\<lambda>c. c = CHR ''#'') l)"

definition spec_claim_region :: "nat \<Rightarrow> string \<Rightarrow> string" where
  "spec_claim_region k after =
     join_lines (takeWhile (\<lambda>l. \<not> (0 < spec_level l \<and> spec_level l \<le> k)) (split_lines after))"

text \<open>A response whose topics section holds a heading of a lower level.\<close>

definition nested_after :: string where
  "nested_after =
     join_lines [''- [file] '' @ [CHR 0x60] @ ''a.py'' @ [CHR 0x60] @ '' - first'',
                 ''### Details'',
                 ''- [file] '' @ [CHR 0x60] @ ''b.py'' @ [CHR 0x60] @ '' - second'',
                 '''']"

definition nested_response :: string where
  "nested_response = ''## Topics to Explore'' @ [CHR 0x0A] @ nested_after"


text \<open>
  A response whose first topic line ends after the bracketed kind; the next line starts
  with a target in backticks.
\<close>

definition wrapped_response :: string where
  "wrapped_response =
     join_lines [''## Topics to Explore'', ''- [file]'',
                 [CHR 0x60] @ ''b.py'' @ [CHR 0x60] @ '' - d2'', '''']"

section \<open>Properties of the store\<close>

lemma make_topic_asdict: "make_topic now (asdict t) = Returns t"
  by (simp add: make_topic_def asdict_def topic_fields_def required_fields_def field_or_def)

lemma make_topics_asdict: "make_topics now (map asdict q) = Returns q"
  by (induction q) (simp_all add: make_topic_asdict)

lemma load_save: "load_queue now (save_queue q) = Returns q"
  by (simp add: load_queue_def save_queue_def make_topics_asdict)

subsection \<open>Adding topics\<close>

lemma add_loop_fresh:
  "add_loop q E n ts = (q @ fresh E ts, E \<union> target ` set ts, n + int (length (fresh E ts)))"
  by (induction ts arbitrary: q E n) auto

lemma fresh_index:
  "fresh E ts = map ((!) ts) (filter (\<lambda>i. target (ts ! i) \<notin> E \<and> (\<forall>j<i. target (ts ! j) \<noteq> target (ts ! i))) [0..<length ts])"
proof (induction ts arbitrary: E)
  case Nil
  show ?case by simp
next
  case (Cons t ts)
  have upt: "[0..<length (t # ts)] = 0 # map Suc [0..<length ts]"
    by (simp add: upt_conv_Cons map_Suc_upt del: upt_Suc)
  have all_Suc: "\<And>P i. (\<forall>j<Suc i. P j) \<longleftrightarrow> P 0 \<and> (\<forall>j<i. P (Suc j))"
    by (metis less_Suc_eq_0_disj)
  show ?case
  proof (cases "target t \<in> E")
    case True
    then show ?thesis
      unfolding upt
      apply (simp add: Cons.IH filter_map comp_def all_Suc del: upt_Suc)
      apply (rule arg_cong[where f="map _"]) 
      apply (rule filter_cong) apply auto
      done
  next
    case False
    then show ?thesis
      unfolding upt
      apply (simp add: Cons.IH filter_map comp_def all_Suc del: upt_Suc)
      apply (rule arg_cong[where f="map _"]) 
      apply (rule filter_cong) apply auto
      done
  qed
qed

lemma fresh_distinct: "distinct (map target (fresh E ts)) \<and> target ` set (fresh E ts) \<inter> E = {}"
  by (induction ts arbitrary: E) auto

lemma fresh_length: "length (fresh E ts) \<le> length ts"
  by (induction ts arbitrary: E) (auto simp: le_SucI)

lemma fresh_sub: "set (fresh E ts) \<subseteq> set ts"
  by (induction ts arbitrary: E) auto

lemma fresh_full: "length (fresh E ts) = length ts \<Longrightarrow> fresh E ts = ts"
proof (induction ts arbitrary: E)
  case Nil then show ?case by simp
next
  case (Cons t ts)
  show ?case
  proof (cases "target t \<in> E")
    case True
    then show ?thesis using fresh_length[of E ts] Cons.prems by simp
  next
    case False
    then show ?thesis using Cons by simp
  qed
qed

lemma fresh_short: "\<not> distinct (map target ts) \<Longrightarrow> length (fresh E ts) < length ts"
  using fresh_full[of E ts] fresh_distinct[of E ts] fresh_length[of E ts]
  by (cases "length (fresh E ts) = length ts") auto

lemma spec_new_topics_fresh: "spec_new_topics queue topics = fresh (target ` set queue) topics"
  unfolding spec_new_topics_def fresh_index
  by (rule arg_cong[where f="map _"], rule filter_cong) (auto simp: spec_is_new_def)

text \<open>
  C1. On a loadable queue, \<^verbatim>\<open>add_topics\<close> appends, in input order, exactly the input
  topics whose target is neither in the queue nor that of an earlier input topic, writes
  the file only when one was appended, and returns their number. The appended topics have
  pairwise different targets, and when two input topics share a target the number
  returned is below the length of the input.
\<close>

theorem add_topics_appends_new:
  assumes "load_queue now fs = Returns queue"
  shows "add_topics now fs topics =
           (Returns (int (length (spec_new_topics queue topics))),
            if spec_new_topics queue topics = [] then fs
            else save_queue (queue @ spec_new_topics queue topics))
         \<and> distinct (map target (spec_new_topics queue topics))
         \<and> (\<not> distinct (map target topics) \<longrightarrow>
              length (spec_new_topics queue topics) < length topics)"
  using assms fresh_distinct[of "target ` set queue" topics] fresh_short[of topics "target ` set queue"]
  by (simp add: add_topics_def add_loop_fresh spec_new_topics_fresh)

theorem add_topics_appends_new_witness:
  "load_queue ''t2'' NoFile = Returns [] \<and>
   add_topics ''t2'' NoFile [tA, tB] = (Returns 1, save_queue [tA])"
proof -
  have l: "load_queue ''t2'' NoFile = Returns []" by (simp add: load_queue_def)
  have n: "spec_new_topics [] [tA, tB] = [tA]"
    by (simp add: spec_new_topics_def spec_is_new_def tA_def tB_def)
  show ?thesis using l add_topics_appends_new[OF l, of "[tA, tB]"] by (simp add: n)
qed

subsection \<open>Popping the next topic\<close>

lemma pop_loop_none:
  "filter (\<lambda>t. status t = ''pending'') q = [] \<Longrightarrow> pop_loop seen q = None"
  by (induction q arbitrary: seen) (auto split: if_splits)

lemma pop_loop_some:
  "filter (\<lambda>t. status t = ''pending'') pre = [] \<Longrightarrow> status t = ''pending'' \<Longrightarrow>
   pop_loop seen (pre @ t # post) =
     Some (seen @ pre @ t\<lparr>status := ''done''\<rparr> # post, t\<lparr>status := ''done''\<rparr>)"
  by (induction pre arbitrary: seen) (auto split: if_splits)

lemma first_pending_split:
  "filter (\<lambda>t. status t = ''pending'') q \<noteq> [] \<Longrightarrow>
   \<exists>pre t post. q = pre @ t # post \<and> filter (\<lambda>t. status t = ''pending'') pre = [] \<and>
      status t = ''pending''"
proof (induction q)
  case Nil then show ?case by simp
next
  case (Cons a q)
  show ?case
  proof (cases "status a = ''pending''")
    case True
    then have "a # q = [] @ a # q \<and> filter (\<lambda>t. status t = ''pending'') [] = [] \<and> status a = ''pending''"
      by simp
    then show ?thesis by blast
  next
    case False
    with Cons obtain pre t post where
      "q = pre @ t # post" "filter (\<lambda>t. status t = ''pending'') pre = []" "status t = ''pending''"
      by auto
    with False have "a # q = (a # pre) @ t # post \<and> filter (\<lambda>t. status t = ''pending'') (a # pre) = [] \<and> status t = ''pending''"
      by simp
    then show ?thesis by blast
  qed
qed

lemma pop_next_none:
  "load_queue now fs = Returns queue \<Longrightarrow> filter (\<lambda>t. status t = ''pending'') queue = [] \<Longrightarrow>
   pop_next now fs = (Returns None, fs)"
  by (simp add: pop_next_def pop_loop_none)

lemma pop_next_some:
  "load_queue now fs = Returns (pre @ t # post) \<Longrightarrow>
   filter (\<lambda>t. status t = ''pending'') pre = [] \<Longrightarrow> status t = ''pending'' \<Longrightarrow>
   pop_next now fs = (Returns (Some (t\<lparr>status := ''done''\<rparr>)),
                      save_queue (pre @ t\<lparr>status := ''done''\<rparr> # post))"
  by (simp add: pop_next_def pop_loop_some[where seen="[]", simplified])

lemma make_topic_clock:
  "make_topic now item = Returns t \<Longrightarrow>
   \<exists>t'. make_topic now' item = Returns t' \<and> status t' = status t"
  by (auto simp: make_topic_def split: json.splits if_splits)

lemma make_topics_clock:
  "make_topics now items = Returns q \<Longrightarrow>
   \<exists>q'. make_topics now' items = Returns q' \<and> map status q' = map status q"
proof (induction items arbitrary: q)
  case Nil then show ?case by simp
next
  case (Cons item items)
  from Cons.prems obtain t ts where t: "make_topic now item = Returns t"
    and ts: "make_topics now items = Returns ts" and q: "q = t # ts"
    by (auto split: outcome.splits)
  from make_topic_clock[OF t, of now'] obtain t' where
    t': "make_topic now' item = Returns t'" "status t' = status t" by blast
  from Cons.IH[OF ts] obtain ts' where
    ts': "make_topics now' items = Returns ts'" "map status ts' = map status ts" by blast
  show ?case using t' ts' q by simp
qed

lemma load_queue_clock:
  "load_queue now fs = Returns q \<Longrightarrow>
   \<exists>q'. load_queue now' fs = Returns q' \<and> map status q' = map status q"
  by (cases fs) (auto simp: load_queue_def split: outcome.splits dest: make_topics_clock)

lemma pending_via_status:
  "length (filter (\<lambda>t. status t = ''pending'') q) = length (filter (\<lambda>s. s = ''pending'') (map status q))"
  by (simp add: filter_map comp_def)

lemma pending_count_zero:
  assumes "load_queue now fs = Returns queue" "filter (\<lambda>t. status t = ''pending'') queue = []"
  shows "pending_count now' fs = Returns 0"
proof -
  from load_queue_clock[OF assms(1), of now'] obtain q' where
    q': "load_queue now' fs = Returns q'" "map status q' = map status queue" by blast
  have "length (filter (\<lambda>t. status t = ''pending'') q') = 0"
    using assms(2) pending_via_status[of q'] pending_via_status[of queue] q'(2) by simp
  then show ?thesis using q'(1) by (simp add: pending_count_def)
qed

lemma pop_many_all:
  "load_queue now fs = Returns queue \<Longrightarrow>
   length nows = length (filter (\<lambda>t. status t = ''pending'') queue) \<Longrightarrow>
   \<exists>fs'. pop_many (now # nows) fs =
           (map (\<lambda>t. Returns (Some (t\<lparr>status := ''done''\<rparr>)))
              (filter (\<lambda>t. status t = ''pending'') queue) @ [Returns None], fs')
        \<and> (\<forall>now'. pending_count now' fs' = Returns 0)"
proof (induction nows arbitrary: now fs queue)
  case Nil
  then have np: "filter (\<lambda>t. status t = ''pending'') queue = []" by simp
  with Nil show ?case
    by (simp add: pop_next_none pending_count_zero)
next
  case (Cons now2 nows)
  then have "filter (\<lambda>t. status t = ''pending'') queue \<noteq> []" by auto
  then obtain pre t post where q: "queue = pre @ t # post"
    and pre: "filter (\<lambda>t. status t = ''pending'') pre = []" and t: "status t = ''pending''"
    using first_pending_split by blast
  let ?q1 = "pre @ t\<lparr>status := ''done''\<rparr> # post"
  have pop: "pop_next now fs = (Returns (Some (t\<lparr>status := ''done''\<rparr>)), save_queue ?q1)"
    using Cons.prems(1) pre t unfolding q by (rule pop_next_some)
  have f1: "filter (\<lambda>t. status t = ''pending'') ?q1 = filter (\<lambda>t. status t = ''pending'') post"
    using pre by simp
  have f0: "filter (\<lambda>t. status t = ''pending'') queue = t # filter (\<lambda>t. status t = ''pending'') post"
    using pre t by (simp add: q)
  have len: "length nows = length (filter (\<lambda>t. status t = ''pending'') ?q1)"
    using Cons.prems(2) f0 f1 by simp
  obtain fs' where rest: "pop_many (now2 # nows) (save_queue ?q1) =
           (map (\<lambda>t. Returns (Some (t\<lparr>status := ''done''\<rparr>)))
              (filter (\<lambda>t. status t = ''pending'') ?q1) @ [Returns None], fs')"
        and cnt: "\<forall>now'. pending_count now' fs' = Returns 0"
    using Cons.IH[OF load_save len] by blast
  have "pop_many (now # now2 # nows) fs =
           (map (\<lambda>t. Returns (Some (t\<lparr>status := ''done''\<rparr>)))
              (filter (\<lambda>t. status t = ''pending'') queue) @ [Returns None], fs')"
    using pop rest f0 f1 by (simp del: pop_many.simps(2) add: pop_many.simps(2)[of now])
  with cnt show ?case by blast
qed

text \<open>
  C2. On a loadable queue, \<^verbatim>\<open>pop_next\<close> returns empty and leaves the file alone when
  no topic is pending; otherwise it marks the first pending topic in stored order as done,
  writes the whole sequence and returns the marked topic. With \<open>N\<close> pending topics,
  \<open>N + 1\<close> successive calls return the pending topics once each, in stored order, and then
  empty, and leave no topic pending.
\<close>

theorem pop_next_first_pending:
  assumes "load_queue now fs = Returns queue"
  shows "(filter (\<lambda>t. status t = ''pending'') queue = [] \<longrightarrow> pop_next now fs = (Returns None, fs))
       \<and> (\<forall>pre t post.
            queue = pre @ t # post \<and> filter (\<lambda>t. status t = ''pending'') pre = [] \<and>
            status t = ''pending'' \<longrightarrow>
            pop_next now fs = (Returns (Some (t\<lparr>status := ''done''\<rparr>)),
                               save_queue (pre @ t\<lparr>status := ''done''\<rparr> # post)))
       \<and> (\<forall>nows. length nows = length (filter (\<lambda>t. status t = ''pending'') queue) \<longrightarrow>
            (\<exists>fs'. pop_many (now # nows) fs =
                     (map (\<lambda>t. Returns (Some (t\<lparr>status := ''done''\<rparr>)))
                        (filter (\<lambda>t. status t = ''pending'') queue) @ [Returns None], fs')
                  \<and> (\<forall>now'. pending_count now' fs' = Returns 0)))"
  using assms pop_next_none pop_next_some pop_many_all by blast


theorem pop_next_first_pending_witness:
  "load_queue ''n1'' (save_queue [tA, tC]) = Returns [tA, tC] \<and>
   pop_next ''n1'' (save_queue [tA, tC]) =
     (Returns (Some (tA\<lparr>status := ''done''\<rparr>)), save_queue [tA\<lparr>status := ''done''\<rparr>, tC])"
proof -
  have l: "load_queue ''n1'' (save_queue [tA, tC]) = Returns [tA, tC]"
    by (rule load_save)
  have "[tA, tC] = [] @ tA # [tC] \<and> filter (\<lambda>t. status t = ''pending'') [] = [] \<and>
        status tA = ''pending''"
    by (simp add: tA_def)
  with pop_next_first_pending[OF l] have
    "pop_next ''n1'' (save_queue [tA, tC]) =
       (Returns (Some (tA\<lparr>status := ''done''\<rparr>)),
        save_queue ([] @ tA\<lparr>status := ''done''\<rparr> # [tC]))"
    by blast
  with l show ?thesis by simp
qed

subsection \<open>Skipping a topic\<close>

lemma pending_positions_snoc:
  "pending_positions (q @ [t]) =
     pending_positions q @ (if status t = ''pending'' then [length q] else [])"
proof -
  have "filter (\<lambda>i. status ((q @ [t]) ! i) = ''pending'') [0..<length q] =
        filter (\<lambda>i. status (q ! i) = ''pending'') [0..<length q]"
    by (rule filter_cong) (auto simp: nth_append)
  then show ?thesis by (simp add: pending_positions_def)
qed

lemma pending_positions_length:
  "length (pending_positions q) = length (filter (\<lambda>t. status t = ''pending'') q)"
proof (induction q rule: rev_induct)
  case Nil
  show ?case by (simp add: pending_positions_def)
next
  case (snoc t q)
  then show ?case by (simp add: pending_positions_snoc)
qed

lemma pending_positions_nth:
  "k < length (pending_positions q) \<Longrightarrow>
   pending_positions q ! k < length q \<and>
   status (q ! (pending_positions q ! k)) = ''pending'' \<and>
   length (filter (\<lambda>t. status t = ''pending'') (take (pending_positions q ! k) q)) = k"
proof (induction q rule: rev_induct)
  case Nil
  then show ?case by (simp add: pending_positions_def)
next
  case (snoc t q)
  show ?case
  proof (cases "k < length (pending_positions q)")
    case True
    with snoc.IH have ih: "pending_positions q ! k < length q"
      "status (q ! (pending_positions q ! k)) = ''pending''"
      "length (filter (\<lambda>t. status t = ''pending'') (take (pending_positions q ! k) q)) = k"
      by auto
    have "pending_positions (q @ [t]) ! k = pending_positions q ! k"
      using True by (simp add: pending_positions_snoc nth_append)
    with ih show ?thesis by (simp add: nth_append)
  next
    case False
    with snoc.prems have p: "status t = ''pending''" and k: "k = length (pending_positions q)"
      by (auto simp: pending_positions_snoc split: if_splits)
    have "pending_positions (q @ [t]) ! k = length q"
      using p k by (simp add: pending_positions_snoc)
    then show ?thesis using p k by (simp add: pending_positions_length)
  qed
qed

lemma filter_update_pending:
  assumes "p < length q" "status (q ! p) = ''pending''" "status t' \<noteq> ''pending''"
  shows "Suc (length (filter (\<lambda>t. status t = ''pending'') (q[p := t']))) =
         length (filter (\<lambda>t. status t = ''pending'') q)"
proof -
  have q: "q = take p q @ q ! p # drop (Suc p) q"
    using assms(1) by (simp add: id_take_nth_drop)
  have u: "q[p := t'] = take p q @ t' # drop (Suc p) q"
    using assms(1) by (simp add: upd_conv_take_nth_drop)
  have "length (filter (\<lambda>t. status t = ''pending'') q) =
        length (filter (\<lambda>t. status t = ''pending'') (take p q @ q ! p # drop (Suc p) q))"
    using q by simp
  then show ?thesis using assms(2,3) unfolding u by simp
qed

lemma skip_topic_out:
  "load_queue now fs = Returns queue \<Longrightarrow>
   index < 0 \<or> int (length (pending_positions queue)) \<le> index \<Longrightarrow>
   skip_topic now fs index = (Returns False, fs)"
  by (auto simp: skip_topic_def Let_def)

lemma skip_topic_in:
  "load_queue now fs = Returns queue \<Longrightarrow>
   0 \<le> index \<Longrightarrow> index < int (length (pending_positions queue)) \<Longrightarrow>
   skip_topic now fs index =
     (Returns True,
      save_queue (queue[pending_positions queue ! nat index :=
                          (queue ! (pending_positions queue ! nat index))\<lparr>status := ''skipped''\<rparr>]))"
  by (auto simp: skip_topic_def Let_def)

lemma skip_twice:
  assumes l: "load_queue now fs = Returns queue"
    and two: "2 \<le> length (pending_positions queue)"
  defines "p0 \<equiv> pending_positions queue ! 0"
  defines "q1 \<equiv> queue[p0 := (queue ! p0)\<lparr>status := ''skipped''\<rparr>]"
  defines "p1 \<equiv> pending_positions q1 ! 0"
  shows "skip_topic now fs 0 = (Returns True, save_queue q1) \<and>
         skip_topic now' (save_queue q1) 0 =
           (Returns True, save_queue (q1[p1 := (queue ! p1)\<lparr>status := ''skipped''\<rparr>])) \<and>
         p0 \<noteq> p1 \<and> p0 < length queue \<and> p1 < length queue \<and>
         status (queue ! p0) = ''pending'' \<and> status (queue ! p1) = ''pending''"
proof -
  from two have ne: "pending_positions queue \<noteq> []" by auto
  have s1: "skip_topic now fs 0 = (Returns True, save_queue q1)"
    using skip_topic_in[OF l, of 0] ne by (simp add: q1_def p0_def)
  have p0: "p0 < length queue" "status (queue ! p0) = ''pending''"
    using pending_positions_nth[of 0 queue] ne by (simp_all add: p0_def)
  have "Suc (length (filter (\<lambda>t. status t = ''pending'') q1)) =
        length (filter (\<lambda>t. status t = ''pending'') queue)"
    unfolding q1_def using p0 by (intro filter_update_pending) simp_all
  then have n1: "1 \<le> length (pending_positions q1)"
    using two by (simp add: pending_positions_length)
  from n1 have ne1: "pending_positions q1 \<noteq> []" by auto
  have p1: "p1 < length q1" "status (q1 ! p1) = ''pending''"
    using pending_positions_nth[of 0 q1] ne1 by (simp_all add: p1_def)
  have neq: "p0 \<noteq> p1"
    using p1 p0 by (auto simp: q1_def)
  have same: "q1 ! p1 = queue ! p1"
    using neq by (simp add: q1_def)
  have s2: "skip_topic now' (save_queue q1) 0 =
           (Returns True, save_queue (q1[p1 := (queue ! p1)\<lparr>status := ''skipped''\<rparr>]))"
    using skip_topic_in[OF load_save, of 0 q1 now'] ne1 same by (simp add: p1_def)
  show ?thesis using s1 s2 neq p0 p1 same by (simp add: q1_def)
qed

text \<open>
  C3. On a loadable queue, \<^verbatim>\<open>skip_topic\<close> reads its index against the positions of
  the pending topics in stored order. An index below zero or not below their number gives
  false and leaves the file alone; otherwise the topic at that pending position (a pending
  topic with exactly \<open>index\<close> pending topics before it) is marked skipped, the queue is
  written and the result is true. With two or more pending topics, skipping index 0 twice
  marks two different topics, both pending in the original queue.
\<close>

theorem skip_topic_pending_relative:
  assumes "load_queue now fs = Returns queue"
  shows "(index < 0 \<or> int (length (pending_positions queue)) \<le> index \<longrightarrow>
            skip_topic now fs index = (Returns False, fs))
       \<and> (0 \<le> index \<and> index < int (length (pending_positions queue)) \<longrightarrow>
            skip_topic now fs index =
              (Returns True,
               save_queue (queue[pending_positions queue ! nat index :=
                 (queue ! (pending_positions queue ! nat index))\<lparr>status := ''skipped''\<rparr>]))
            \<and> pending_positions queue ! nat index < length queue
            \<and> status (queue ! (pending_positions queue ! nat index)) = ''pending''
            \<and> length (filter (\<lambda>t. status t = ''pending'')
                        (take (pending_positions queue ! nat index) queue)) = nat index)
       \<and> length (pending_positions queue) = length (filter (\<lambda>t. status t = ''pending'') queue)
       \<and> (2 \<le> length (pending_positions queue) \<longrightarrow>
            (let p0 = pending_positions queue ! 0;
                 q1 = queue[p0 := (queue ! p0)\<lparr>status := ''skipped''\<rparr>];
                 p1 = pending_positions q1 ! 0
             in skip_topic now fs 0 = (Returns True, save_queue q1) \<and>
                skip_topic now' (save_queue q1) 0 =
                  (Returns True, save_queue (q1[p1 := (queue ! p1)\<lparr>status := ''skipped''\<rparr>])) \<and>
                p0 \<noteq> p1 \<and> p0 < length queue \<and> p1 < length queue \<and>
                status (queue ! p0) = ''pending'' \<and> status (queue ! p1) = ''pending''))"
proof -
  have a: "index < 0 \<or> int (length (pending_positions queue)) \<le> index \<longrightarrow>
            skip_topic now fs index = (Returns False, fs)"
    using skip_topic_out[OF assms] by blast
  have b: "0 \<le> index \<and> index < int (length (pending_positions queue)) \<longrightarrow>
            skip_topic now fs index =
              (Returns True,
               save_queue (queue[pending_positions queue ! nat index :=
                 (queue ! (pending_positions queue ! nat index))\<lparr>status := ''skipped''\<rparr>]))
            \<and> pending_positions queue ! nat index < length queue
            \<and> status (queue ! (pending_positions queue ! nat index)) = ''pending''
            \<and> length (filter (\<lambda>t. status t = ''pending'')
                        (take (pending_positions queue ! nat index) queue)) = nat index"
  proof
    assume h: "0 \<le> index \<and> index < int (length (pending_positions queue))"
    then have k: "nat index < length (pending_positions queue)" by linarith
    show "skip_topic now fs index =
              (Returns True,
               save_queue (queue[pending_positions queue ! nat index :=
                 (queue ! (pending_positions queue ! nat index))\<lparr>status := ''skipped''\<rparr>]))
            \<and> pending_positions queue ! nat index < length queue
            \<and> status (queue ! (pending_positions queue ! nat index)) = ''pending''
            \<and> length (filter (\<lambda>t. status t = ''pending'')
                        (take (pending_positions queue ! nat index) queue)) = nat index"
      using skip_topic_in[OF assms, of index] h pending_positions_nth[OF k] by blast
  qed
  have c: "2 \<le> length (pending_positions queue) \<longrightarrow>
            (let p0 = pending_positions queue ! 0;
                 q1 = queue[p0 := (queue ! p0)\<lparr>status := ''skipped''\<rparr>];
                 p1 = pending_positions q1 ! 0
             in skip_topic now fs 0 = (Returns True, save_queue q1) \<and>
                skip_topic now' (save_queue q1) 0 =
                  (Returns True, save_queue (q1[p1 := (queue ! p1)\<lparr>status := ''skipped''\<rparr>])) \<and>
                p0 \<noteq> p1 \<and> p0 < length queue \<and> p1 < length queue \<and>
                status (queue ! p0) = ''pending'' \<and> status (queue ! p1) = ''pending'')"
    unfolding Let_def using skip_twice[OF assms] by blast
  show ?thesis using a b c pending_positions_length by blast
qed


theorem skip_topic_pending_relative_witness:
  "load_queue ''n1'' (save_queue [tA\<lparr>status := ''done''\<rparr>, tB, tC]) =
     Returns [tA\<lparr>status := ''done''\<rparr>, tB, tC] \<and>
   skip_topic ''n1'' (save_queue [tA\<lparr>status := ''done''\<rparr>, tB, tC]) 1 =
     (Returns True, save_queue [tA\<lparr>status := ''done''\<rparr>, tB, tC\<lparr>status := ''skipped''\<rparr>]) \<and>
   skip_topic ''n1'' (save_queue [tA\<lparr>status := ''done''\<rparr>, tB, tC]) 2 =
     (Returns False, save_queue [tA\<lparr>status := ''done''\<rparr>, tB, tC])"
proof -
  let ?q = "[tA\<lparr>status := ''done''\<rparr>, tB, tC]"
  have l: "load_queue ''n1'' (save_queue ?q) = Returns ?q"
    by (rule load_save)
  have pp: "pending_positions ?q = [1, 2]"
    by (simp add: pending_positions_def tA_def tB_def tC_def upt_rec)
  have in1: "0 \<le> (1::int) \<and> 1 < int (length (pending_positions ?q))"
    by (simp add: pp)
  have out2: "(2::int) < 0 \<or> int (length (pending_positions ?q)) \<le> 2"
    by (simp add: pp)
  have s1: "skip_topic ''n1'' (save_queue ?q) 1 =
              (Returns True,
               save_queue (?q[pending_positions ?q ! nat 1 :=
                 (?q ! (pending_positions ?q ! nat 1))\<lparr>status := ''skipped''\<rparr>]))"
    using skip_topic_pending_relative[OF l, of 1] in1 by blast
  have s2: "skip_topic ''n1'' (save_queue ?q) 2 = (Returns False, save_queue ?q)"
    using skip_topic_pending_relative[OF l, of 2] out2 by blast
  have u: "?q[pending_positions ?q ! nat 1 :=
                 (?q ! (pending_positions ?q ! nat 1))\<lparr>status := ''skipped''\<rparr>] =
           [tA\<lparr>status := ''done''\<rparr>, tB, tC\<lparr>status := ''skipped''\<rparr>]"
    unfolding pp by simp
  show ?thesis using l s1 s2 unfolding u by blast
qed

subsection \<open>Status changes\<close>

lemma spec_moved_refl: "spec_moved s q q"
  by (simp add: spec_moved_def)

lemma add_topics_keeps:
  assumes "load_queue now fs = Returns queue"
  shows "\<exists>q'. load_queue now (snd (add_topics now fs ts)) = Returns q' \<and>
              take (length queue) q' = queue"
  using assms by (simp add: add_topics_def add_loop_fresh load_save)

lemma pop_next_moves:
  assumes "load_queue now fs = Returns queue"
  shows "\<exists>q'. load_queue now (snd (pop_next now fs)) = Returns q' \<and>
              length q' = length queue \<and> spec_moved ''done'' queue q'"
proof (cases "filter (\<lambda>t. status t = ''pending'') queue = []")
  case True
  then show ?thesis using assms pop_next_none[OF assms] by (simp add: spec_moved_refl)
next
  case False
  then obtain pre t post where q: "queue = pre @ t # post"
    and pre: "filter (\<lambda>t. status t = ''pending'') pre = []" and t: "status t = ''pending''"
    using first_pending_split by blast
  have "spec_moved ''done'' (pre @ t # post) (pre @ t\<lparr>status := ''done''\<rparr> # post)"
    using t by (auto simp: spec_moved_def nth_append nth_Cons split: nat.splits)
  then show ?thesis
    using pop_next_some[OF assms[unfolded q] pre t] by (simp add: load_save q)
qed

lemma skip_topic_moves:
  assumes "load_queue now fs = Returns queue"
  shows "\<exists>q'. load_queue now (snd (skip_topic now fs index)) = Returns q' \<and>
              length q' = length queue \<and> spec_moved ''skipped'' queue q'"
proof (cases "index < 0 \<or> int (length (pending_positions queue)) \<le> index")
  case True
  then show ?thesis using assms skip_topic_out[OF assms True] by (simp add: spec_moved_refl)
next
  case False
  then have h: "0 \<le> index" "index < int (length (pending_positions queue))" by auto
  then have k: "nat index < length (pending_positions queue)" by linarith
  let ?p = "pending_positions queue ! nat index"
  have p: "?p < length queue" "status (queue ! ?p) = ''pending''"
    using pending_positions_nth[OF k] by auto
  have "spec_moved ''skipped'' queue (queue[?p := (queue ! ?p)\<lparr>status := ''skipped''\<rparr>])"
    using p by (auto simp: spec_moved_def nth_list_update)
  then show ?thesis
    using skip_topic_in[OF assms h] by (simp add: load_save)
qed

text \<open>
  C4. On a loadable queue, each writing operation keeps every stored topic in its place:
  \<^verbatim>\<open>add_topics\<close> leaves the old queue as a prefix of the new one, untouched;
  \<^verbatim>\<open>pop_next\<close> changes at most the status of a pending topic, to done;
  \<^verbatim>\<open>skip_topic\<close> changes at most the status of a pending topic, to skipped. So a
  topic that is done or skipped is never changed, and no topic is deleted.
  (\<^verbatim>\<open>load_queue\<close> and \<^verbatim>\<open>pending_count\<close> do not write.)
\<close>

theorem store_status_monotonic:
  assumes "load_queue now fs = Returns queue"
  shows "(\<exists>q'. load_queue now (snd (add_topics now fs topics)) = Returns q' \<and>
              take (length queue) q' = queue)
       \<and> (\<exists>q'. load_queue now (snd (pop_next now fs)) = Returns q' \<and>
              length q' = length queue \<and> spec_moved ''done'' queue q')
       \<and> (\<exists>q'. load_queue now (snd (skip_topic now fs index)) = Returns q' \<and>
              length q' = length queue \<and> spec_moved ''skipped'' queue q')"
  using add_topics_keeps[OF assms] pop_next_moves[OF assms] skip_topic_moves[OF assms]
  by blast

theorem store_status_monotonic_witness:
  "load_queue ''n1'' (save_queue [tA\<lparr>status := ''done''\<rparr>, tC]) =
     Returns [tA\<lparr>status := ''done''\<rparr>, tC] \<and>
   (\<exists>q'. load_queue ''n1'' (snd (pop_next ''n1'' (save_queue [tA\<lparr>status := ''done''\<rparr>, tC]))) =
           Returns q' \<and> length q' = 2 \<and> q' ! 0 = tA\<lparr>status := ''done''\<rparr>)"
proof -
  let ?q = "[tA\<lparr>status := ''done''\<rparr>, tC]"
  have l: "load_queue ''n1'' (save_queue ?q) = Returns ?q"
    by (rule load_save)
  from store_status_monotonic[OF l] obtain q' where
    q': "load_queue ''n1'' (snd (pop_next ''n1'' (save_queue ?q))) = Returns q'"
        "length q' = length ?q" "spec_moved ''done'' ?q q'"
    by blast
  from q'(3) have m: "\<forall>i<length ?q. q' ! i = ?q ! i \<or>
        (status (?q ! i) = ''pending'' \<and> q' ! i = (?q ! i)\<lparr>status := ''done''\<rparr>)"
    unfolding spec_moved_def by blast
  have "(0::nat) < length ?q" by simp
  with m have "q' ! 0 = ?q ! 0 \<or>
        (status (?q ! 0) = ''pending'' \<and> q' ! 0 = (?q ! 0)\<lparr>status := ''done''\<rparr>)"
    by blast
  then have "q' ! 0 = tA\<lparr>status := ''done''\<rparr>" by simp
  with q' l show ?thesis by auto
qed

subsection \<open>Loading\<close>

lemma make_topic_raises: "make_topic now item = Raises e \<longleftrightarrow> e = TypeError \<and> \<not> accepts_kwargs item"
  by (cases item) (auto simp: make_topic_def accepts_kwargs_def)

lemma make_topics_raises:
  "(\<exists>e. make_topics now items = Raises e) \<longleftrightarrow> \<not> list_all accepts_kwargs items"
proof (induction items)
  case Nil show ?case by simp
next
  case (Cons item items)
  show ?case
  proof (cases "make_topic now item")
    case (Raises e)
    then show ?thesis using make_topic_raises[of now item e] by simp
  next
    case (Returns t)
    then have "accepts_kwargs item" using make_topic_raises[of now item TypeError] by auto
    then show ?thesis using Cons Returns by (auto split: outcome.splits)
  next
    case OffType
    then have "accepts_kwargs item" using make_topic_raises[of now item TypeError] by auto
    then show ?thesis using Cons OffType by (auto split: outcome.splits)
  qed
qed

lemma make_topics_raises_TypeError:
  "make_topics now items = Raises e \<Longrightarrow> e = TypeError"
proof (induction items)
  case Nil then show ?case by simp
next
  case (Cons item items)
  then show ?case
    by (auto split: outcome.splits simp: make_topic_raises)
qed

lemma load_queue_raises:
  "load_queue now (Parsed data) = Raises e \<longleftrightarrow>
     e = TypeError \<and>
     (py_iter data = Raises TypeError \<or>
      (\<exists>items. py_iter data = Returns items \<and> \<not> list_all accepts_kwargs items))"
proof (cases "py_iter data")
  case (Raises e')
  then have "e' = TypeError" by (cases data) auto
  with Raises show ?thesis by (auto simp: load_queue_def)
next
  case (Returns items)
  have l: "load_queue now (Parsed data) = make_topics now items"
    using Returns by (simp add: load_queue_def)
  show ?thesis
  proof
    assume "load_queue now (Parsed data) = Raises e"
    then have r: "make_topics now items = Raises e" using l by simp
    then have "e = TypeError" by (rule make_topics_raises_TypeError)
    moreover have "\<not> list_all accepts_kwargs items"
      using r make_topics_raises[of now items] by blast
    ultimately show "e = TypeError \<and>
     (py_iter data = Raises TypeError \<or>
      (\<exists>items. py_iter data = Returns items \<and> \<not> list_all accepts_kwargs items))"
      using Returns by blast
  next
    assume a: "e = TypeError \<and>
     (py_iter data = Raises TypeError \<or>
      (\<exists>items. py_iter data = Returns items \<and> \<not> list_all accepts_kwargs items))"
    then have "\<not> list_all accepts_kwargs items" using Returns by auto
    then obtain e' where r: "make_topics now items = Raises e'"
      using make_topics_raises[of now items] by blast
    then have "e' = TypeError" by (rule make_topics_raises_TypeError)
    then show "load_queue now (Parsed data) = Raises e" using r l a by simp
  qed
next
  case OffType
  then show ?thesis by (cases data) auto
qed

lemma spec_record_accepts: "spec_topic_record item \<Longrightarrow> accepts_kwargs item"
proof (cases item)
  case (JObj kvs)
  assume "spec_topic_record item"
  then have k: "fst ` set kvs = set topic_fields"
    using JObj by (simp add: spec_topic_record_def)
  have a: "list_all (\<lambda>kv. fst kv \<in> set topic_fields) kvs"
    using k by (auto simp: list_all_iff)
  have "\<And>x. x \<in> set required_fields \<Longrightarrow> x \<in> fst ` set kvs"
    unfolding k by (auto simp: required_fields_def topic_fields_def)
  then have b: "list_all (\<lambda>k. map_of kvs k \<noteq> None) required_fields"
    by (simp add: list_all_iff map_of_eq_None_iff)
  show ?thesis using a b JObj by (simp add: accepts_kwargs_def)
qed (simp_all add: spec_topic_record_def)

lemma spec_record_loads:
  assumes "spec_topic_record item"
  shows "\<exists>t. make_topic now item = Returns t"
proof (cases "make_topic now item")
  case (Raises e)
  then show ?thesis using spec_record_accepts[OF assms] make_topic_raises[of now item e] by simp
next
  case (Returns t)
  then show ?thesis by simp
next
  case OffType
  then show ?thesis using assms
    by (cases item) (auto simp: spec_topic_record_def make_topic_def split: if_splits)
qed

lemma spec_records_load:
  "list_all spec_topic_record items \<Longrightarrow> \<exists>q. make_topics now items = Returns q"
proof (induction items)
  case Nil show ?case by simp
next
  case (Cons item items)
  then obtain t q where "make_topic now item = Returns t" "make_topics now items = Returns q"
    using spec_record_loads[of item now] by auto
  then show ?case by simp
qed

lemma spec_schema_loads:
  "spec_topic_schema data \<Longrightarrow> \<exists>q. load_queue now (Parsed data) = Returns q"
  by (cases data) (simp_all add: spec_topic_schema_def load_queue_def spec_records_load)

lemma raise_propagates:
  assumes "load_queue now fs = Raises e"
  shows "add_topics now fs topics = (Raises e, fs) \<and> pop_next now fs = (Raises e, fs) \<and>
         skip_topic now fs index = (Raises e, fs) \<and> pending_count now fs = Raises e"
  using assms by (simp add: add_topics_def pop_next_def skip_topic_def pending_count_def)

text \<open>
  C5, as the code has it. \<^verbatim>\<open>load_queue\<close> returns the empty sequence when there is no
  file. On a file that is not JSON it raises \<^verbatim>\<open>JSONDecodeError\<close>; on a JSON value it
  raises, always \<^verbatim>\<open>TypeError\<close>, exactly when the value cannot be iterated or one of
  the items it yields is not a mapping with field names as keys that has title, kind and
  target. A file that matches the persisted layout loads. Nothing catches the error:
  \<^verbatim>\<open>add_topics\<close>, \<^verbatim>\<open>pop_next\<close>, \<^verbatim>\<open>skip_topic\<close> and \<^verbatim>\<open>pending_count\<close> raise it
  too and leave the file as it is.
\<close>

theorem load_queue_failures:
  "load_queue now NoFile = Returns []
   \<and> load_queue now Garbled = Raises JSONDecodeError
   \<and> (load_queue now (Parsed data) = Raises e \<longleftrightarrow>
        e = TypeError \<and>
        (py_iter data = Raises TypeError \<or>
         (\<exists>items. py_iter data = Returns items \<and> \<not> list_all accepts_kwargs items)))
   \<and> (spec_topic_schema data \<longrightarrow> (\<exists>q. load_queue now (Parsed data) = Returns q))
   \<and> (load_queue now fs = Raises e \<longrightarrow>
        add_topics now fs topics = (Raises e, fs) \<and> pop_next now fs = (Raises e, fs) \<and>
        skip_topic now fs index = (Raises e, fs) \<and> pending_count now fs = Raises e)"
proof -
  have a: "load_queue now NoFile = Returns []" "load_queue now Garbled = Raises JSONDecodeError"
    by (simp_all add: load_queue_def)
  show ?thesis
    using a load_queue_raises[of now data e] spec_schema_loads[of data now]
      raise_propagates[of now fs e topics index]
    by blast
qed

text \<open>
  C5 as stated fails: a file holding the empty JSON object does not match the persisted
  layout, and \<^verbatim>\<open>load_queue\<close> returns the empty sequence for it instead of raising.
\<close>

theorem load_queue_empty_object_counterexample:
  "\<not> spec_topic_schema (JObj []) \<and> load_queue ''n1'' (Parsed (JObj [])) = Returns []"
  by (simp add: spec_topic_schema_def load_queue_def)

theorem load_queue_failures_witness:
  "load_queue ''n1'' (Parsed (JArr [JObj [(''title'', JStr ''a'')]])) = Raises TypeError \<and>
   pop_next ''n1'' (Parsed (JArr [JObj [(''title'', JStr ''a'')]])) =
     (Raises TypeError, Parsed (JArr [JObj [(''title'', JStr ''a'')]]))"
proof -
  let ?d = "JArr [JObj [(''title'', JStr ''a'')]]"
  have n: "py_iter ?d = Returns [JObj [(''title'', JStr ''a'')]] \<and>
           \<not> list_all accepts_kwargs [JObj [(''title'', JStr ''a'')]]"
    by (simp add: accepts_kwargs_def required_fields_def topic_fields_def)
  have l: "load_queue ''n1'' (Parsed ?d) = Raises TypeError"
    using load_queue_failures[of "''n1''" ?d TypeError] n by blast
  then show ?thesis
    using load_queue_failures[of "''n1''" ?d TypeError "Parsed ?d"] by blast
qed

subsection \<open>Round trip\<close>

lemma make_topic_keeps_field:
  assumes "make_topic now item = Returns t" "obj_get item k = Some v"
  shows "obj_get (asdict t) k = Some v"
proof (cases item)
  case (JObj kvs)
  from assms(2) JObj have m: "map_of kvs k = Some v" by simp
  then have mem: "(k, v) \<in> set kvs" by (rule map_of_SomeD)
  from assms(1) JObj have ok: "list_all (\<lambda>kv. fst kv \<in> set topic_fields) kvs"
    "list_all (\<lambda>kv. is_str (snd kv)) kvs"
    and t: "t = \<lparr> title = field_or kvs ''title'' [], kind = field_or kvs ''kind'' [],
                   target = field_or kvs ''target'' [], source = field_or kvs ''source'' [],
                   status = field_or kvs ''status'' ''pending'',
                   added = field_or kvs ''added'' now \<rparr>"
    by (auto simp: make_topic_def split: if_splits)
  from ok mem have k: "k \<in> set topic_fields" and "is_str v"
    by (auto simp: list_all_iff)
  then obtain s where v: "v = JStr s" by (cases v) auto
  have f: "\<And>d. field_or kvs k d = s" using m v by (simp add: field_or_def)
  from k have "k = ''title'' \<or> k = ''kind'' \<or> k = ''target'' \<or> k = ''source''
    \<or> k = ''status'' \<or> k = ''added''"
    unfolding topic_fields_def by simp
  then show ?thesis
  proof (elim disjE)
    assume "k = ''title''" then show ?thesis using f[of "[]"] by (simp add: asdict_def t v)
  next
    assume "k = ''kind''" then show ?thesis using f[of "[]"] by (simp add: asdict_def t v)
  next
    assume "k = ''target''" then show ?thesis using f[of "[]"] by (simp add: asdict_def t v)
  next
    assume "k = ''source''" then show ?thesis using f[of "[]"] by (simp add: asdict_def t v)
  next
    assume "k = ''status''" then show ?thesis using f[of "''pending''"] by (simp add: asdict_def t v)
  next
    assume "k = ''added''" then show ?thesis using f[of now] by (simp add: asdict_def t v)
  qed
qed (use assms in simp_all)


lemma make_topics_keep_fields:
  "make_topics now items = Returns q \<Longrightarrow>
   length q = length items \<and>
   (\<forall>i<length items. \<forall>k v. obj_get (items ! i) k = Some v \<longrightarrow> obj_get (asdict (q ! i)) k = Some v)"
proof (induction items arbitrary: q)
  case Nil then show ?case by simp
next
  case (Cons item items)
  from Cons.prems obtain t ts where t: "make_topic now item = Returns t"
    and ts: "make_topics now items = Returns ts" and q: "q = t # ts"
    by (auto split: outcome.splits)
  from Cons.IH[OF ts] have ih: "length ts = length items"
    "\<forall>i<length items. \<forall>k v. obj_get (items ! i) k = Some v \<longrightarrow> obj_get (asdict (ts ! i)) k = Some v"
    by auto
  show ?case
    unfolding q using ih make_topic_keeps_field[OF t]
    by (auto simp: nth_Cons split: nat.splits)
qed

text \<open>
  C6, as the code has it. What \<^verbatim>\<open>load_queue\<close> returned is what \<^verbatim>\<open>save_queue\<close> stores:
  loading the saved file, at any later time, gives the same topics, field by field. And
  every value a record of the old file held under a key is the value the new file holds
  under that key. (A record that left out source, status or added is written back with
  the field present.)
\<close>

theorem load_save_round_trip:
  assumes "load_queue now fs = Returns queue"
  shows "load_queue now' (save_queue queue) = Returns queue
       \<and> (\<forall>items. fs = Parsed (JArr items) \<longrightarrow>
            save_queue queue = Parsed (JArr (map asdict queue)) \<and>
            length queue = length items \<and>
            (\<forall>i<length items. \<forall>k v.
               obj_get (items ! i) k = Some v \<longrightarrow> obj_get (asdict (queue ! i)) k = Some v))"
proof -
  have a: "load_queue now' (save_queue queue) = Returns queue" by (rule load_save)
  have b: "\<forall>items. fs = Parsed (JArr items) \<longrightarrow>
            save_queue queue = Parsed (JArr (map asdict queue)) \<and>
            length queue = length items \<and>
            (\<forall>i<length items. \<forall>k v.
               obj_get (items ! i) k = Some v \<longrightarrow> obj_get (asdict (queue ! i)) k = Some v)"
  proof (intro allI impI)
    fix items assume "fs = Parsed (JArr items)"
    then have "make_topics now items = Returns queue"
      using assms by (simp add: load_queue_def)
    from make_topics_keep_fields[OF this]
    show "save_queue queue = Parsed (JArr (map asdict queue)) \<and>
            length queue = length items \<and>
            (\<forall>i<length items. \<forall>k v.
               obj_get (items ! i) k = Some v \<longrightarrow> obj_get (asdict (queue ! i)) k = Some v)"
      by (simp add: save_queue_def)
  qed
  show ?thesis using a b by (rule conjI)
qed

text \<open>
  C6 as stated fails on a loadable file whose record leaves out \<^verbatim>\<open>added\<close>: saving what
  was loaded changes the file, and a later load no longer sees the value it would have
  seen.
\<close>

theorem load_save_round_trip_counterexample:
  "load_queue ''n1'' partial_file = Returns [partial_topic ''n1'']
   \<and> save_queue [partial_topic ''n1''] \<noteq> partial_file
   \<and> load_queue ''n2'' partial_file = Returns [partial_topic ''n2'']
   \<and> load_queue ''n2'' (save_queue [partial_topic ''n1'']) = Returns [partial_topic ''n1'']
   \<and> partial_topic ''n1'' \<noteq> partial_topic ''n2''"
  by (simp add: load_save)
    (simp add: partial_file_def partial_topic_def load_queue_def make_topic_def field_or_def
      topic_fields_def required_fields_def save_queue_def asdict_def)

theorem load_save_round_trip_witness:
  "load_queue ''n1'' partial_file = Returns [partial_topic ''n1'']
   \<and> load_queue ''n2'' (save_queue [partial_topic ''n1'']) = Returns [partial_topic ''n1'']
   \<and> obj_get (asdict (partial_topic ''n1'')) ''target'' = Some (JStr ''a.py'')"
proof -
  have l: "load_queue ''n1'' partial_file = Returns [partial_topic ''n1'']"
    by (simp add: partial_file_def partial_topic_def load_queue_def make_topic_def field_or_def
      topic_fields_def required_fields_def)
  have g: "obj_get (asdict (partial_topic ''n1'')) ''target'' = Some (JStr ''a.py'')"
    by (simp add: asdict_def partial_topic_def)
  have r: "load_queue ''n2'' (save_queue [partial_topic ''n1'']) = Returns [partial_topic ''n1'']"
    using load_save_round_trip[OF l, of "''n2''"] by (rule conjunct1)
  show ?thesis using l r g by (intro conjI)
qed

section \<open>Properties of the symbol extractor\<close>

lemma scan_capturing_returns: "\<exists>r. scan_lines symbol True b acc ls = Some r"
  by (induction ls arbitrary: acc) (auto simp: Let_def)

lemma scan_searching_returns: "\<exists>r. scan_lines symbol False b [] ls = Some r"
  by (induction ls) (auto simp: Let_def scan_capturing_returns)

text \<open>\<^verbatim>\<open>extract_symbol\<close> returns on every input: the decorator loop is never entered.\<close>

theorem extract_symbol_returns: "\<exists>r. extract_symbol content symbol = Some r"
proof (cases content)
  case None
  then show ?thesis by (simp add: extract_symbol_def)
next
  case (Some s)
  obtain r where "scan_lines symbol False 0 [] (split_lines s) = Some r"
    using scan_searching_returns by blast
  then show ?thesis using Some by (simp add: extract_symbol_def)
qed

lemma scan_search_skip:
  "\<forall>l\<in>set pre. \<not> is_def_line symbol (lstrip l) \<Longrightarrow>
   scan_lines symbol False b [] (pre @ ls) = scan_lines symbol False b [] ls"
  by (induction pre) (auto simp: Let_def)

lemma scan_search_found:
  "is_def_line symbol (lstrip d) \<Longrightarrow>
   scan_lines symbol False b [] (d # ls) = scan_lines symbol True (indent d) [d] ls"
  by (simp add: Let_def indent_def)

lemma scan_capture_keep:
  "\<forall>l\<in>set body. \<not> ends_capture base l \<Longrightarrow>
   scan_lines symbol True base acc (body @ ls) = scan_lines symbol True base (acc @ body) ls"
proof (induction body arbitrary: acc)
  case Nil
  show ?case by simp
next
  case (Cons l body)
  then have keep: "\<not> ends_capture base l" and rest: "\<forall>l\<in>set body. \<not> ends_capture base l"
    by auto
  have "scan_lines symbol True base acc (l # body @ ls) =
        scan_lines symbol True base (acc @ [l]) (body @ ls)"
    using keep by (auto simp: Let_def ends_capture_def indent_def)
  then show ?case using Cons.IH[OF rest, of "acc @ [l]"] by simp
qed

lemma scan_capture_stop:
  "ends_capture base l \<Longrightarrow> scan_lines symbol True base acc (l # ls) = Some acc"
  by (auto simp: Let_def ends_capture_def indent_def)

text \<open>
  C9, as the code has it. Once the definition line \<open>d\<close> is found, capturing runs through
  every line that is blank, or indented deeper than \<open>d\<close>, or a comment line (at any
  indentation), and emits it; it ends before the first non-blank line that is indented
  no deeper than \<open>d\<close> and is not a comment line, or at the last line. The result is
  \<open>d\<close> and the lines run through, joined.
\<close>

theorem capture_ends_at_dedent:
  assumes "split_lines text = pre @ d # body @ rest"
    and "\<forall>l\<in>set pre. \<not> is_def_line symbol (lstrip l)"
    and "is_def_line symbol (lstrip d)"
    and "\<forall>l\<in>set body. \<not> ends_capture (indent d) l"
    and "rest = [] \<or> ends_capture (indent d) (hd rest)"
  shows "extract_symbol (Some text) symbol = Some (Some (join_lines (d # body)))"
proof -
  have "scan_lines symbol False 0 [] (pre @ d # body @ rest) =
        scan_lines symbol True (indent d) ([d] @ body) rest"
    using scan_search_skip[OF assms(2)] scan_search_found[OF assms(3)]
      scan_capture_keep[OF assms(4)] by simp
  also have "\<dots> = Some (d # body)"
  proof (cases rest)
    case Nil
    then show ?thesis by simp
  next
    case (Cons l ls)
    then show ?thesis using assms(5) scan_capture_stop[of "indent d" l] by simp
  qed
  finally show ?thesis using assms(1) by (simp add: extract_symbol_def)
qed

lemma split_commented:
  "split_lines commented_source =
     [''import os'', ''def f():'', ''    a = 1'', ''# note'', ''    return a'', ''x = f()'', '''']"
  by (simp add: commented_source_def)

theorem capture_ends_at_dedent_witness:
  "extract_symbol (Some commented_source) ''f'' =
     Some (Some (join_lines [''def f():'', ''    a = 1'', ''# note'', ''    return a'']))"
proof -
  have s: "split_lines commented_source =
     [''import os''] @ ''def f():'' # [''    a = 1'', ''# note'', ''    return a''] @ [''x = f()'', '''']"
    by (simp add: split_commented)
  have i: "indent ''def f():'' = 0"
    by (simp add: indent_def lstrip_def is_space_def)
  have p: "\<forall>l\<in>set [''import os'']. \<not> is_def_line ''f'' (lstrip l)"
    by (simp add: is_def_line_def startswith_def lstrip_def is_space_def)
  have d: "is_def_line ''f'' (lstrip ''def f():'')"
    by (simp add: is_def_line_def startswith_def lstrip_def is_space_def)
  have b: "\<forall>l\<in>set [''    a = 1'', ''# note'', ''    return a'']. \<not> ends_capture (indent ''def f():'') l"
    unfolding i by (simp add: ends_capture_def indent_def startswith_def lstrip_def is_space_def)
  have r: "[''x = f()'', ''''] = [] \<or> ends_capture (indent ''def f():'') (hd [''x = f()'', ''''])"
    unfolding i by (simp add: ends_capture_def indent_def startswith_def lstrip_def is_space_def)
  show ?thesis by (rule capture_ends_at_dedent[OF s p d b r])
qed

text \<open>
  C9 as stated fails in its last part: a comment line at the base indentation does not
  end capturing. It is emitted, and so is the body line after it.
\<close>

theorem comment_line_counterexample:
  "spec_ends_capture 0 ''# note'' \<and>
   scan_lines ''f'' True 0 [''def f():'', ''    a = 1''] [''# note'', ''    return a'', ''x = f()'', ''''] =
     Some [''def f():'', ''    a = 1'', ''# note'', ''    return a'']"
  by (simp add: spec_ends_capture_def indent_def startswith_def lstrip_def is_space_def Let_def)


text \<open>The scenario of the specification: the blank line after a body is part of the result.\<close>

theorem hello_scenario:
  "extract_symbol (Some hello_source) ''hello'' =
     Some (Some (join_lines [''def hello(name):'', ''    return name'', []]))
   \<and> extract_symbol (Some hello_source) ''other'' =
     Some (Some (join_lines [''def other():'', ''    pass'', []]))
   \<and> extract_symbol (Some hello_source) ''missing'' = Some None"
  by code_simp

section \<open>Properties of the tree builder\<close>

lemma filtered_entries_mset:
  "mset (filtered_entries listing) = filter_mset (\<lambda>e. \<not> skipped e) (mset listing)"
  by (simp add: filtered_entries_def sort_entries_def)

lemma filtered_entries_sorted:
  "sorted (map (\<lambda>e. (\<not> is_dir (snd e), fst e)) (filtered_entries listing))"
  unfolding filtered_entries_def sort_entries_def
  by (rule sorted_filter) (rule sorted_sort_key)

lemma filtered_entries_order:
  assumes "i < j" "j < length (filtered_entries listing)"
  shows "(is_dir (snd (filtered_entries listing ! j)) \<longrightarrow> is_dir (snd (filtered_entries listing ! i)))
       \<and> (is_dir (snd (filtered_entries listing ! i)) = is_dir (snd (filtered_entries listing ! j)) \<longrightarrow>
            fst (filtered_entries listing ! i) \<le> fst (filtered_entries listing ! j))"
proof -
  let ?k = "\<lambda>e. (\<not> is_dir (snd e), fst e)"
  let ?v = "filtered_entries listing"
  have "map ?k ?v ! i \<le> map ?k ?v ! j"
    using filtered_entries_sorted[of listing] assms
    by (intro sorted_nth_mono) simp_all
  then have "?k (?v ! i) \<le> ?k (?v ! j)" using assms by simp
  then show ?thesis by (auto simp: less_eq_prod_def)
qed

lemma filtered_entries_idem:
  "filtered_entries (filter (\<lambda>e. \<not> skipped e) listing) = filtered_entries listing"
  by (simp add: filtered_entries_def sort_entries_def filter_sort)

lemma walk_without_skipped:
  "walk max_depth (Dir (filter (\<lambda>e. \<not> skipped e) listing)) prefix depth =
   walk max_depth (Dir listing) prefix depth"
  by (simp add: filtered_entries_idem)

lemma walk_open:
  "depth \<le> max_depth \<Longrightarrow>
   walk max_depth (Dir listing) prefix depth =
     concat (map (\<lambda>(i, entry).
        (prefix @ (if int i = int (length (filtered_entries listing)) - 1 then elbow else tee) @ fst entry) #
        (if is_dir (snd entry)
         then walk max_depth (snd entry)
                (prefix @ (if int i = int (length (filtered_entries listing)) - 1 then blank else pipe))
                (depth + 1)
         else []))
       (enumerate 0 (filtered_entries listing)))"
  by (simp add: Let_def)

lemma scenario_filtered:
  "filtered_entries [(''README.md'', File), (''.git'', Dir [(''objects'', Dir [])]),
                     (''src'', Dir [(''app.py'', File)])] =
   [(''src'', Dir [(''app.py'', File)]), (''README.md'', File)]"
  by code_simp

lemma app_filtered: "filtered_entries [(''app.py'', File)] = [(''app.py'', File)]"
  by code_simp

lemma scenario_walk:
  assumes "1 \<le> max_depth"
  shows "walk max_depth scenario_root [] 1 =
           (if 2 \<le> max_depth
            then [tee @ ''src'', pipe @ elbow @ ''app.py'', elbow @ ''README.md'']
            else [tee @ ''src'', elbow @ ''README.md''])"
proof -
  have inner: "walk max_depth (Dir [(''app.py'', File)]) pipe 2 =
                 (if 2 \<le> max_depth then [pipe @ elbow @ ''app.py''] else [])"
    by (simp add: app_filtered Let_def)
  show ?thesis
    using assms unfolding scenario_root_def
    by (subst walk.simps) (simp add: scenario_filtered Let_def inner del: walk.simps)
qed

text \<open>
  C10, as the code has it. At a directory the entries kept are exactly those the filter
  does not skip, each as often as the directory holds it; among them every directory
  comes before every entry that is none, and within each group the names ascend. Above
  the depth limit the output of a directory is, for each kept entry in that order, its
  line followed by the output of the entry when it is a directory. Removing the skipped
  entries from a directory, with all they contain, changes nothing in the output. In the
  scenario, with a depth limit of at least 1, \<^verbatim>\<open>.git\<close> is absent and \<^verbatim>\<open>src\<close> comes
  before \<^verbatim>\<open>README.md\<close>.
\<close>

theorem tree_level_entries:
  "mset (filtered_entries listing) = filter_mset (\<lambda>e. \<not> skipped e) (mset listing)
   \<and> (\<forall>i j. i < j \<and> j < length (filtered_entries listing) \<longrightarrow>
         (is_dir (snd (filtered_entries listing ! j)) \<longrightarrow> is_dir (snd (filtered_entries listing ! i)))
         \<and> (is_dir (snd (filtered_entries listing ! i)) = is_dir (snd (filtered_entries listing ! j)) \<longrightarrow>
              fst (filtered_entries listing ! i) \<le> fst (filtered_entries listing ! j)))
   \<and> (depth \<le> max_depth \<longrightarrow>
         walk max_depth (Dir listing) prefix depth =
           concat (map (\<lambda>(i, entry).
              (prefix @ (if int i = int (length (filtered_entries listing)) - 1 then elbow else tee) @ fst entry) #
              (if is_dir (snd entry)
               then walk max_depth (snd entry)
                      (prefix @ (if int i = int (length (filtered_entries listing)) - 1 then blank else pipe))
                      (depth + 1)
               else []))
             (enumerate 0 (filtered_entries listing))))
   \<and> walk max_depth (Dir (filter (\<lambda>e. \<not> skipped e) listing)) prefix depth =
       walk max_depth (Dir listing) prefix depth
   \<and> (1 \<le> max_depth \<longrightarrow>
         get_repo_structure ''repo'' scenario_root max_depth =
           Returns (join_lines (''repo/'' #
             (if 2 \<le> max_depth
              then [tee @ ''src'', pipe @ elbow @ ''app.py'', elbow @ ''README.md'']
              else [tee @ ''src'', elbow @ ''README.md'']))))"
proof -
  have s: "1 \<le> max_depth \<longrightarrow>
         get_repo_structure ''repo'' scenario_root max_depth =
           Returns (join_lines (''repo/'' #
             (if 2 \<le> max_depth
              then [tee @ ''src'', pipe @ elbow @ ''app.py'', elbow @ ''README.md'']
              else [tee @ ''src'', elbow @ ''README.md''])))"
  proof
    assume m: "1 \<le> max_depth"
    have d: "is_dir scenario_root" by (simp add: scenario_root_def)
    show "get_repo_structure ''repo'' scenario_root max_depth =
           Returns (join_lines (''repo/'' #
             (if 2 \<le> max_depth
              then [tee @ ''src'', pipe @ elbow @ ''app.py'', elbow @ ''README.md'']
              else [tee @ ''src'', elbow @ ''README.md''])))"
      unfolding get_repo_structure_def scenario_walk[OF m] using d by simp
  qed
  have o: "\<forall>i j. i < j \<and> j < length (filtered_entries listing) \<longrightarrow>
         (is_dir (snd (filtered_entries listing ! j)) \<longrightarrow> is_dir (snd (filtered_entries listing ! i)))
         \<and> (is_dir (snd (filtered_entries listing ! i)) = is_dir (snd (filtered_entries listing ! j)) \<longrightarrow>
              fst (filtered_entries listing ! i) \<le> fst (filtered_entries listing ! j))"
    using filtered_entries_order[of _ _ listing] by blast
  have w: "depth \<le> max_depth \<longrightarrow>
         walk max_depth (Dir listing) prefix depth =
           concat (map (\<lambda>(i, entry).
              (prefix @ (if int i = int (length (filtered_entries listing)) - 1 then elbow else tee) @ fst entry) #
              (if is_dir (snd entry)
               then walk max_depth (snd entry)
                      (prefix @ (if int i = int (length (filtered_entries listing)) - 1 then blank else pipe))
                      (depth + 1)
               else []))
             (enumerate 0 (filtered_entries listing)))"
    using walk_open[of depth max_depth listing prefix] by (rule impI)
  show ?thesis
    using filtered_entries_mset[of listing] o w
      walk_without_skipped[of max_depth listing prefix depth] s
    by (intro conjI)
qed

theorem tree_level_entries_witness:
  "get_repo_structure ''repo'' scenario_root 4 =
     Returns (join_lines [''repo/'', tee @ ''src'', pipe @ elbow @ ''app.py'', elbow @ ''README.md''])"
proof -
  have "(1::int) \<le> 4 \<longrightarrow>
         get_repo_structure ''repo'' scenario_root 4 =
           Returns (join_lines (''repo/'' #
             (if (2::int) \<le> 4
              then [tee @ ''src'', pipe @ elbow @ ''app.py'', elbow @ ''README.md'']
              else [tee @ ''src'', elbow @ ''README.md''])))"
    using tree_level_entries[of "[]" 1 4 "[]"] by (elim conjE)
  then show ?thesis by simp
qed

lemma build_filtered: "filtered_entries [(''build'', File)] = [(''build'', File)]"
  by code_simp

text \<open>
  C10 as stated fails: \<^verbatim>\<open>build\<close> is in the exclusion set, and a regular file of that
  name is rendered, since names without a leading dot are tested on directories only.
\<close>

theorem file_named_build_counterexample:
  "spec_excluded (''build'', File) \<and>
   get_repo_structure ''repo'' (Dir [(''build'', File)]) 4 =
     Returns (join_lines [''repo/'', elbow @ ''build''])"
proof -
  have a: "spec_excluded (''build'', File)"
    by (simp add: spec_excluded_def skip_dirs_def)
  have b: "walk 4 (Dir [(''build'', File)]) [] 1 = [elbow @ ''build'']"
    by (simp add: build_filtered Let_def)
  show ?thesis using a b by (simp add: get_repo_structure_def)
qed

section \<open>Properties of the parser\<close>

subsection \<open>The pieces of the patterns\<close>

lemma is_space_newline: "is_space (CHR 0x0A)"
  by (simp add: is_space_def)

lemma space_lower: "is_space c \<Longrightarrow> lower_char c = c"
  by (auto simp: is_space_def lower_char_def Let_def)

lemma lower_hash: "lower_char (CHR ''#'') = CHR ''#''"
  by (simp add: lower_char_def)

lemma not_space_letters:
  "\<not> is_space (CHR ''t'')" "\<not> is_space (CHR ''e'')" "\<not> is_space (CHR ''s'')"
  "\<not> is_space (CHR ''#'')"
  by (simp_all add: is_space_def)

lemma many1_Some_iff:
  "many1 P s = Some (run, r) \<longleftrightarrow>
     s = run @ r \<and> run \<noteq> [] \<and> (\<forall>c\<in>set run. P c) \<and> (r = [] \<or> \<not> P (hd r))"
proof
  assume "many1 P s = Some (run, r)"
  then have run: "run = takeWhile P s" "r = dropWhile P s" "takeWhile P s \<noteq> []"
    by (auto simp: many1_def split: if_splits)
  have "r = [] \<or> \<not> P (hd r)" unfolding run(2) by (metis hd_dropWhile)
  then show "s = run @ r \<and> run \<noteq> [] \<and> (\<forall>c\<in>set run. P c) \<and> (r = [] \<or> \<not> P (hd r))"
    using run by (auto dest: set_takeWhileD)
next
  assume a: "s = run @ r \<and> run \<noteq> [] \<and> (\<forall>c\<in>set run. P c) \<and> (r = [] \<or> \<not> P (hd r))"
  then have r: "takeWhile P r = []" "dropWhile P r = r"
    by (auto simp: takeWhile_eq_Nil_iff dropWhile_eq_self_iff)
  have "takeWhile P s = run" "dropWhile P s = r"
    using a r by (simp_all add: takeWhile_append2 dropWhile_append2)
  then show "many1 P s = Some (run, r)" using a by (simp add: many1_def)
qed

lemma dropWhile_eq_iff:
  "dropWhile P s = r \<longleftrightarrow> (\<exists>run. s = run @ r \<and> (\<forall>c\<in>set run. P c) \<and> (r = [] \<or> \<not> P (hd r)))"
proof
  assume d: "dropWhile P s = r"
  have "s = takeWhile P s @ r" using d by (metis takeWhile_dropWhile_id)
  moreover have "\<forall>c\<in>set (takeWhile P s). P c" by (auto dest: set_takeWhileD)
  moreover have "r = [] \<or> \<not> P (hd r)" using d by (metis hd_dropWhile)
  ultimately show "\<exists>run. s = run @ r \<and> (\<forall>c\<in>set run. P c) \<and> (r = [] \<or> \<not> P (hd r))"
    by blast
next
  assume "\<exists>run. s = run @ r \<and> (\<forall>c\<in>set run. P c) \<and> (r = [] \<or> \<not> P (hd r))"
  then obtain run where a: "s = run @ r" "\<forall>c\<in>set run. P c" "r = [] \<or> \<not> P (hd r)"
    by blast
  then have "dropWhile P r = r" by (auto simp: dropWhile_eq_self_iff)
  then show "dropWhile P s = r" using a by (simp add: dropWhile_append2)
qed

lemma lit_Some_iff: "lit p s = Some r \<longleftrightarrow> s = p @ r"
  by (induction p s rule: lit.induct) auto

lemma lit_ci_Some_iff: "lit_ci p s = Some r \<longleftrightarrow> (\<exists>t. s = t @ r \<and> lower t = p)"
proof (induction p s rule: lit_ci.induct)
  case (1 s)
  show ?case by (simp add: lower_def)
next
  case (2 p ps)
  show ?case by (simp add: lower_def)
next
  case (3 p ps c cs)
  show ?case
  proof (cases "lower_char c = p")
    case True
    have "(\<exists>t. c # cs = t @ r \<and> lower t = p # ps) \<longleftrightarrow> (\<exists>t'. cs = t' @ r \<and> lower t' = ps)"
    proof
      assume "\<exists>t. c # cs = t @ r \<and> lower t = p # ps"
      then obtain t where t: "c # cs = t @ r" "lower t = p # ps" by blast
      then obtain t' where "t = c # t'" by (cases t) (auto simp: lower_def)
      with t show "\<exists>t'. cs = t' @ r \<and> lower t' = ps" by (auto simp: lower_def)
    next
      assume "\<exists>t'. cs = t' @ r \<and> lower t' = ps"
      then obtain t' where "cs = t' @ r" "lower t' = ps" by blast
      with True have "c # cs = (c # t') @ r \<and> lower (c # t') = p # ps" by (simp add: lower_def)
      then show "\<exists>t. c # cs = t @ r \<and> lower t = p # ps" by blast
    qed
    with True 3 show ?thesis by simp
  next
    case False
    have "\<not> (\<exists>t. c # cs = t @ r \<and> lower t = p # ps)"
    proof
      assume "\<exists>t. c # cs = t @ r \<and> lower t = p # ps"
      then obtain t where t: "c # cs = t @ r" "lower t = p # ps" by blast
      then obtain t' where "t = c # t'" by (cases t) (auto simp: lower_def)
      with t False show False by (simp add: lower_def)
    qed
    with False show ?thesis by simp
  qed
qed

lemma opt_s_sound: "\<exists>sfx. s = sfx @ opt_s s \<and> (sfx = [] \<or> lower sfx = ''s'')"
proof (cases s)
  case Nil
  then show ?thesis by simp
next
  case (Cons c cs)
  show ?thesis
  proof (cases "lower_char c = CHR ''s''")
    case True
    then have "s = [c] @ opt_s s \<and> lower [c] = ''s''" using Cons by (simp add: lower_def)
    then show ?thesis by blast
  next
    case False
    then show ?thesis using Cons by simp
  qed
qed

lemma opt_s_complete:
  assumes "sfx = [] \<or> lower sfx = ''s''" "w \<noteq> []" "\<forall>c\<in>set w. is_space c"
  shows "opt_s (sfx @ w @ r) = w @ r"
proof (cases sfx)
  case Nil
  obtain c w' where w: "w = c # w'" using assms(2) by (cases w) auto
  then have "is_space c" using assms(3) by simp
  then have "lower_char c \<noteq> CHR ''s''" using space_lower[of c] not_space_letters(3) by auto
  then show ?thesis using Nil w by simp
next
  case (Cons c cs)
  then have "lower sfx = ''s''" using assms(1) by simp
  then have "cs = []" "lower_char c = CHR ''s''" using Cons by (simp_all add: lower_def)
  then show ?thesis using Cons by simp
qed

lemma end_heading_Some_iff:
  "end_heading s = Some a \<longleftrightarrow>
     (\<exists>w. s = w @ [CHR 0x0A] @ a \<and> (\<forall>c\<in>set w. is_space c) \<and>
          CHR 0x0A \<notin> set (takeWhile is_space a))"
proof
  assume e: "end_heading s = Some a"
  let ?w = "takeWhile is_space s"
  from e have nl: "CHR 0x0A \<in> set ?w"
    and a: "a = rev (takeWhile (\<lambda>c. c \<noteq> CHR 0x0A) (rev ?w)) @ dropWhile is_space s"
    by (auto simp: end_heading_def Let_def split: if_splits)
  let ?tail = "rev (takeWhile (\<lambda>c. c \<noteq> CHR 0x0A) (rev ?w))"
  from nl have "dropWhile (\<lambda>c. c \<noteq> CHR 0x0A) (rev ?w) \<noteq> []" by (simp add: dropWhile_eq_Nil_conv)
  then obtain x front where d: "dropWhile (\<lambda>c. c \<noteq> CHR 0x0A) (rev ?w) = x # front"
    by (cases "dropWhile (\<lambda>c. c \<noteq> CHR 0x0A) (rev ?w)") auto
  then have x: "x = CHR 0x0A" using hd_dropWhile[of "\<lambda>c. c \<noteq> CHR 0x0A" "rev ?w"] by auto
  have "rev ?w = takeWhile (\<lambda>c. c \<noteq> CHR 0x0A) (rev ?w) @ CHR 0x0A # front"
    using takeWhile_dropWhile_id[of "\<lambda>c. c \<noteq> CHR 0x0A" "rev ?w"] d x by simp
  then have "rev (rev ?w) = rev (takeWhile (\<lambda>c. c \<noteq> CHR 0x0A) (rev ?w) @ CHR 0x0A # front)"
    by simp
  then have w: "?w = rev front @ [CHR 0x0A] @ ?tail" by simp
  have sp: "\<forall>c\<in>set ?w. is_space c" by (auto dest: set_takeWhileD)
  have sp_front: "\<forall>c\<in>set (rev front). is_space c" and sp_tail: "\<forall>c\<in>set ?tail. is_space c"
    using sp by (subst (asm) w, simp)+
  have no_nl: "CHR 0x0A \<notin> set ?tail" by (auto dest: set_takeWhileD)
  have s: "s = rev front @ [CHR 0x0A] @ a"
    using takeWhile_dropWhile_id[of is_space s] w a by (metis append.assoc)
  have t0: "takeWhile is_space (dropWhile is_space s) = []"
    by (metis hd_dropWhile takeWhile_eq_Nil_iff)
  have "takeWhile is_space (?tail @ dropWhile is_space s) = ?tail @ takeWhile is_space (dropWhile is_space s)"
    using sp_tail by (intro takeWhile_append2) blast
  then have "takeWhile is_space a = ?tail"
    unfolding a using t0 by simp
  then show "\<exists>w. s = w @ [CHR 0x0A] @ a \<and> (\<forall>c\<in>set w. is_space c) \<and>
          CHR 0x0A \<notin> set (takeWhile is_space a)"
    using s sp_front no_nl by auto
next
  assume "\<exists>w. s = w @ [CHR 0x0A] @ a \<and> (\<forall>c\<in>set w. is_space c) \<and>
          CHR 0x0A \<notin> set (takeWhile is_space a)"
  then obtain w where s: "s = w @ [CHR 0x0A] @ a" and sp: "\<forall>c\<in>set w. is_space c"
    and no: "CHR 0x0A \<notin> set (takeWhile is_space a)" by blast
  have tw: "takeWhile is_space s = w @ [CHR 0x0A] @ takeWhile is_space a"
    unfolding s using sp by (simp add: takeWhile_append2 is_space_newline)
  have dw: "dropWhile is_space s = dropWhile is_space a"
    unfolding s using sp by (simp add: dropWhile_append2 is_space_newline)
  have "takeWhile (\<lambda>c. c \<noteq> CHR 0x0A) (rev (takeWhile is_space a) @ CHR 0x0A # rev w) =
        rev (takeWhile is_space a) @ takeWhile (\<lambda>c. c \<noteq> CHR 0x0A) (CHR 0x0A # rev w)"
    using no by (intro takeWhile_append2) auto
  then have "takeWhile (\<lambda>c. c \<noteq> CHR 0x0A) (rev (takeWhile is_space s)) = rev (takeWhile is_space a)"
    unfolding tw by simp
  then show "end_heading s = Some a"
    unfolding end_heading_def Let_def dw using tw by simp
qed

subsection \<open>The heading\<close>

lemma lower_hd: "lower t = p # ps \<Longrightarrow> t \<noteq> [] \<and> lower_char (hd t) = p"
  by (cases t) (auto simp: lower_def)

lemma letter_not_space:
  assumes "lower_char c = x" "\<not> is_space x"
  shows "\<not> is_space c"
  using assms space_lower[of c] by auto

lemma match_heading_sound:
  assumes "match_heading s = Some a"
  shows "\<exists>h. s = h @ a \<and> spec_heading h \<and> CHR 0x0A \<notin> set (takeWhile is_space a)"
proof -
  from assms obtain hashes s1 s2 w2 s3 s4 w3 s5 s6 where
    m: "many1 (\<lambda>c. c = CHR ''#'') s = Some (hashes, s1)"
       "lit_ci ''topic'' (dropWhile is_space s1) = Some s2"
       "many1 is_space (opt_s s2) = Some (w2, s3)"
       "lit_ci ''to'' s3 = Some s4"
       "many1 is_space s4 = Some (w3, s5)"
       "lit_ci ''explore'' s5 = Some s6"
       "end_heading s6 = Some a"
    unfolding match_heading_def by (auto simp: bind_eq_Some_conv)
  from m(1) have h: "s = hashes @ s1" "hashes \<noteq> []" "\<forall>c\<in>set hashes. c = CHR ''#''"
    by (simp_all add: many1_Some_iff)
  obtain w1 where w1: "s1 = w1 @ dropWhile is_space s1" "\<forall>c\<in>set w1. is_space c"
    using dropWhile_eq_iff[of is_space s1 "dropWhile is_space s1"] by auto
  from m(2) obtain t where t: "dropWhile is_space s1 = t @ s2" "lower t = ''topic''"
    by (auto simp: lit_ci_Some_iff)
  obtain sfx where sfx: "s2 = sfx @ opt_s s2" "sfx = [] \<or> lower sfx = ''s''"
    using opt_s_sound[of s2] by blast
  from m(3) have w2: "opt_s s2 = w2 @ s3" "w2 \<noteq> []" "\<forall>c\<in>set w2. is_space c"
    by (simp_all add: many1_Some_iff)
  from m(4) obtain t2 where t2: "s3 = t2 @ s4" "lower t2 = ''to''"
    by (auto simp: lit_ci_Some_iff)
  from m(5) have w3: "s4 = w3 @ s5" "w3 \<noteq> []" "\<forall>c\<in>set w3. is_space c"
    by (simp_all add: many1_Some_iff)
  from m(6) obtain t3 where t3: "s5 = t3 @ s6" "lower t3 = ''explore''"
    by (auto simp: lit_ci_Some_iff)
  from m(7) obtain w4 where w4: "s6 = w4 @ [CHR 0x0A] @ a" "\<forall>c\<in>set w4. is_space c"
    "CHR 0x0A \<notin> set (takeWhile is_space a)"
    by (auto simp: end_heading_Some_iff)
  let ?h = "hashes @ w1 @ t @ sfx @ w2 @ t2 @ w3 @ t3 @ w4 @ [CHR 0x0A]"
  have "s = ?h @ a"
    using h(1) w1(1) t(1) sfx(1) w2(1) t2(1) w3(1) t3(1) w4(1) by (metis append.assoc)
  moreover have "spec_heading ?h"
    unfolding spec_heading_def
    using h(2,3) w1(2) t(2) sfx(2) w2(2,3) t2(2) w3(2,3) t3(2) w4(2) by blast
  ultimately show ?thesis using w4(3) by blast
qed

lemma match_heading_complete:
  assumes "spec_heading h" "CHR 0x0A \<notin> set (takeWhile is_space a)"
  shows "match_heading (h @ a) = Some a"
proof -
  from assms(1) obtain hashes w1 t sfx w2 t2 w3 t3 w4 where
    all: "h = hashes @ w1 @ t @ sfx @ w2 @ t2 @ w3 @ t3 @ w4 @ [CHR 0x0A]
        \<and> hashes \<noteq> [] \<and> (\<forall>c\<in>set hashes. c = CHR ''#'')
        \<and> (\<forall>c\<in>set w1. is_space c)
        \<and> lower t = ''topic'' \<and> (sfx = [] \<or> lower sfx = ''s'')
        \<and> w2 \<noteq> [] \<and> (\<forall>c\<in>set w2. is_space c)
        \<and> lower t2 = ''to''
        \<and> w3 \<noteq> [] \<and> (\<forall>c\<in>set w3. is_space c)
        \<and> lower t3 = ''explore''
        \<and> (\<forall>c\<in>set w4. is_space c)"
    unfolding spec_heading_def by (elim exE) (rule that, assumption)
  from all have h: "h = hashes @ w1 @ t @ sfx @ w2 @ t2 @ w3 @ t3 @ w4 @ [CHR 0x0A]"
    and c: "hashes \<noteq> []" "\<forall>c\<in>set hashes. c = CHR ''#''" "\<forall>c\<in>set w1. is_space c"
      "lower t = ''topic''" "sfx = [] \<or> lower sfx = ''s''"
      "w2 \<noteq> []" "\<forall>c\<in>set w2. is_space c" "lower t2 = ''to''"
      "w3 \<noteq> []" "\<forall>c\<in>set w3. is_space c" "lower t3 = ''explore''"
      "\<forall>c\<in>set w4. is_space c"
    by simp_all
  let ?s6 = "w4 @ [CHR 0x0A] @ a"
  let ?s5 = "t3 @ ?s6"
  let ?s4 = "w3 @ ?s5"
  let ?s3 = "t2 @ ?s4"
  let ?s2' = "w2 @ ?s3"
  let ?s2 = "sfx @ ?s2'"
  let ?s1' = "t @ ?s2"
  let ?s1 = "w1 @ ?s1'"
  have t_hd: "t \<noteq> []" "lower_char (hd t) = CHR ''t''" using lower_hd[OF c(4)] by simp_all
  have t2_hd: "t2 \<noteq> []" "lower_char (hd t2) = CHR ''t''" using lower_hd[OF c(8)] by simp_all
  have t3_hd: "t3 \<noteq> []" "lower_char (hd t3) = CHR ''e''" using lower_hd[OF c(11)] by simp_all
  have t_ns: "\<not> is_space (hd t)" using letter_not_space[OF t_hd(2)] not_space_letters by simp
  have t2_ns: "\<not> is_space (hd t2)" using letter_not_space[OF t2_hd(2)] not_space_letters by simp
  have t3_ns: "\<not> is_space (hd t3)" using letter_not_space[OF t3_hd(2)] not_space_letters by simp
  have t_nh: "hd t \<noteq> CHR ''#''" using t_hd(2) lower_hash by auto
  have "hd ?s1 \<noteq> CHR ''#''"
  proof (cases w1)
    case Nil
    then show ?thesis using t_hd(1) t_nh by simp
  next
    case (Cons x xs)
    then have "is_space x" using c(3) by simp
    then show ?thesis using Cons not_space_letters(4) by auto
  qed
  then have 1: "many1 (\<lambda>c. c = CHR ''#'') (hashes @ ?s1) = Some (hashes, ?s1)"
    using c(1,2) by (simp add: many1_Some_iff)
  have 2: "dropWhile is_space ?s1 = ?s1'"
    using c(3) t_hd(1) t_ns by (subst dropWhile_eq_iff) (auto simp: hd_append)
  have 3: "lit_ci ''topic'' ?s1' = Some ?s2"
    using c(4) by (subst lit_ci_Some_iff) blast
  have 4: "opt_s ?s2 = ?s2'"
    using opt_s_complete[OF c(5) c(6) c(7)] by simp
  have 5: "many1 is_space ?s2' = Some (w2, ?s3)"
    using c(6,7) t2_hd(1) t2_ns by (simp add: many1_Some_iff hd_append)
  have 6: "lit_ci ''to'' ?s3 = Some ?s4"
    using c(8) by (subst lit_ci_Some_iff) blast
  have 7: "many1 is_space ?s4 = Some (w3, ?s5)"
    using c(9,10) t3_hd(1) t3_ns by (simp add: many1_Some_iff hd_append)
  have 8: "lit_ci ''explore'' ?s5 = Some ?s6"
    using c(11) by (subst lit_ci_Some_iff) blast
  have 9: "end_heading ?s6 = Some a"
    using c(12) assms(2) by (subst end_heading_Some_iff) blast
  have "h @ a = hashes @ ?s1" using h by simp
  then show ?thesis
    unfolding match_heading_def using 1 2 3 4 5 6 7 8 9 by simp
qed

subsection \<open>The region\<close>

lemma split_lines_nonempty: "split_lines s \<noteq> []"
  by (induction s) (auto split: list.splits)

lemma split_lines_hd:
  "c \<noteq> CHR 0x0A \<Longrightarrow> \<exists>l ls. split_lines (c # cs) = (c # l) # ls \<and> split_lines cs = l # ls"
  using split_lines_nonempty[of cs] by (cases "split_lines cs") auto

lemma join_lines_Cons:
  "join_lines (l # ls) = l @ (if ls = [] then [] else CHR 0x0A # join_lines ls)"
  by (cases ls) auto

lemma until_heading_lines:
  "until_heading a =
     join_lines (hd (split_lines a) # takeWhile (\<lambda>l. \<not> startswith l ''#'') (tl (split_lines a)))"
proof (induction a rule: until_heading.induct)
  case 1
  show ?case by simp
next
  case (2 c)
  show ?case by (simp add: startswith_def)
next
  case (3 c d cs)
  obtain l ls where dl: "split_lines (d # cs) = l # ls"
    using split_lines_nonempty[of "d # cs"] by (cases "split_lines (d # cs)") auto
  show ?case
  proof (cases "c = CHR 0x0A")
    case nl: True
    show ?thesis
    proof (cases "d = CHR ''#''")
      case True
      then obtain l' where "l = CHR ''#'' # l'" using dl split_lines_hd[of d cs] by auto
      then have "startswith l ''#''" by (simp add: startswith_def)
      then show ?thesis using nl True dl by simp
    next
      case False
      have "\<not> startswith l ''#''"
      proof (cases "d = CHR 0x0A")
        case True
        then have "l = []" using dl by simp
        then show ?thesis by (simp add: startswith_def)
      next
        case F: False
        then obtain l' where "l = d # l'" using dl split_lines_hd[of d cs] by auto
        then show ?thesis using False by (simp add: startswith_def)
      qed
      then show ?thesis using nl False dl 3 by simp
    qed
  next
    case False
    then have s: "split_lines (c # d # cs) = (c # l) # ls" using dl by simp
    have "until_heading (c # d # cs) = c # until_heading (d # cs)" using False by simp
    also have "\<dots> = c # join_lines (l # takeWhile (\<lambda>l. \<not> startswith l ''#'') ls)"
      using 3 False dl by simp
    also have "\<dots> = join_lines ((c # l) # takeWhile (\<lambda>l. \<not> startswith l ''#'') ls)"
      by (simp add: join_lines_Cons)
    finally show ?thesis using s by simp
  qed
qed

lemma until_heading_region:
  assumes "\<not> startswith a ''#''"
  shows "until_heading a = spec_region a"
proof -
  obtain l ls where s: "split_lines a = l # ls"
    using split_lines_nonempty[of a] by (cases "split_lines a") auto
  have "\<not> startswith l ''#''"
  proof (cases a)
    case Nil
    then show ?thesis using s by (simp add: startswith_def)
  next
    case (Cons c cs)
    show ?thesis
    proof (cases "c = CHR 0x0A")
      case True
      then show ?thesis using s Cons by (simp add: startswith_def)
    next
      case False
      then obtain l' where "l = c # l'" using s Cons split_lines_hd[of c cs] by auto
      then show ?thesis using assms Cons by (simp add: startswith_def)
    qed
  qed
  then show ?thesis
    unfolding spec_region_def until_heading_lines s by simp
qed

lemma match_heading_Nil: "match_heading [] = None"
  by (simp add: match_heading_def many1_def)

lemma find_section_at:
  "match_heading s = Some a \<Longrightarrow> find_section s = Some (until_heading a)"
  by (cases s) (simp_all add: match_heading_Nil)

lemma find_section_skip:
  "(\<And>i. i < length pre \<Longrightarrow> match_heading (drop i (pre @ s)) = None) \<Longrightarrow>
   find_section (pre @ s) = find_section s"
proof (induction pre)
  case Nil
  show ?case by simp
next
  case (Cons c pre)
  have "match_heading (drop 0 ((c # pre) @ s)) = None" by (rule Cons.prems) simp
  then have 0: "match_heading (c # pre @ s) = None" by simp
  have "\<And>i. i < length pre \<Longrightarrow> match_heading (drop i (pre @ s)) = None"
  proof -
    fix i assume "i < length pre"
    then have "match_heading (drop (Suc i) ((c # pre) @ s)) = None" by (intro Cons.prems) simp
    then show "match_heading (drop i (pre @ s)) = None" by simp
  qed
  then show ?case using Cons.IH 0 by simp
qed

lemma find_section_sound:
  "find_section s = Some sec \<Longrightarrow> spec_heading_occurs s"
proof (induction s)
  case Nil
  then show ?case by simp
next
  case (Cons c cs)
  show ?case
  proof (cases "match_heading (c # cs)")
    case None
    with Cons have "spec_heading_occurs cs" by simp
    then obtain pre h post where "cs = pre @ h @ post" "spec_heading h"
      unfolding spec_heading_occurs_def by blast
    then have "c # cs = (c # pre) @ h @ post \<and> spec_heading h" by simp
    then show ?thesis unfolding spec_heading_occurs_def by blast
  next
    case (Some a)
    then obtain h where "c # cs = [] @ h @ a \<and> spec_heading h"
      using match_heading_sound[OF Some] by auto
    then show ?thesis unfolding spec_heading_occurs_def by blast
  qed
qed

lemma spec_heading_extend:
  assumes "spec_heading h" "\<forall>c\<in>set w. is_space c"
  shows "spec_heading (h @ w @ [CHR 0x0A])"
proof -
  from assms(1) obtain hashes w1 t sfx w2 t2 w3 t3 w4 where
    all: "h = hashes @ w1 @ t @ sfx @ w2 @ t2 @ w3 @ t3 @ w4 @ [CHR 0x0A]
        \<and> hashes \<noteq> [] \<and> (\<forall>c\<in>set hashes. c = CHR ''#'')
        \<and> (\<forall>c\<in>set w1. is_space c)
        \<and> lower t = ''topic'' \<and> (sfx = [] \<or> lower sfx = ''s'')
        \<and> w2 \<noteq> [] \<and> (\<forall>c\<in>set w2. is_space c)
        \<and> lower t2 = ''to''
        \<and> w3 \<noteq> [] \<and> (\<forall>c\<in>set w3. is_space c)
        \<and> lower t3 = ''explore''
        \<and> (\<forall>c\<in>set w4. is_space c)"
    unfolding spec_heading_def by (elim exE) (rule that, assumption)
  from all have h: "h = hashes @ w1 @ t @ sfx @ w2 @ t2 @ w3 @ t3 @ w4 @ [CHR 0x0A]"
    and c: "hashes \<noteq> []" "\<forall>c\<in>set hashes. c = CHR ''#''" "\<forall>c\<in>set w1. is_space c"
      "lower t = ''topic''" "sfx = [] \<or> lower sfx = ''s''"
      "w2 \<noteq> []" "\<forall>c\<in>set w2. is_space c" "lower t2 = ''to''"
      "w3 \<noteq> []" "\<forall>c\<in>set w3. is_space c" "lower t3 = ''explore''"
    and w4: "\<forall>c\<in>set w4. is_space c"
    by simp_all
  let ?w4 = "w4 @ [CHR 0x0A] @ w"
  have e: "h @ w @ [CHR 0x0A] = hashes @ w1 @ t @ sfx @ w2 @ t2 @ w3 @ t3 @ ?w4 @ [CHR 0x0A]"
    using h by simp
  have sp: "\<forall>c\<in>set ?w4. is_space c"
    using w4 assms(2) by (simp add: is_space_newline ball_Un)
  show ?thesis
    unfolding spec_heading_def
    apply (rule exI[of _ hashes], rule exI[of _ w1], rule exI[of _ t], rule exI[of _ sfx])
    apply (rule exI[of _ w2], rule exI[of _ t2], rule exI[of _ w3], rule exI[of _ t3])
    apply (rule exI[of _ ?w4])
    using e c sp apply (intro conjI)
                apply assumption+
    done
qed

lemma match_heading_any:
  assumes "spec_heading h"
  shows "\<exists>a. match_heading (h @ post) = Some a"
proof (cases "CHR 0x0A \<in> set (takeWhile is_space post)")
  case False
  then show ?thesis using match_heading_complete[OF assms] by blast
next
  case True
  then obtain w1 w2 where w: "takeWhile is_space post = w1 @ CHR 0x0A # w2" "CHR 0x0A \<notin> set w2"
    using split_list_last[of "CHR 0x0A" "takeWhile is_space post"] by blast
  have sp: "\<forall>c\<in>set (takeWhile is_space post). is_space c" by (auto dest: set_takeWhileD)
  then have sp1: "\<forall>c\<in>set w1. is_space c" and sp2: "\<forall>c\<in>set w2. is_space c"
    unfolding w(1) by simp_all
  let ?a = "w2 @ dropWhile is_space post"
  have t0: "takeWhile is_space (dropWhile is_space post) = []"
    by (metis hd_dropWhile takeWhile_eq_Nil_iff)
  have "takeWhile is_space (w2 @ dropWhile is_space post) =
        w2 @ takeWhile is_space (dropWhile is_space post)"
    using sp2 by (intro takeWhile_append2) blast
  then have ta: "takeWhile is_space ?a = w2" using t0 by simp
  have post: "post = w1 @ [CHR 0x0A] @ ?a"
    using takeWhile_dropWhile_id[of is_space post] w(1) by (metis append.assoc append_Cons append_Nil)
  have "match_heading ((h @ w1 @ [CHR 0x0A]) @ ?a) = Some ?a"
    using spec_heading_extend[OF assms sp1] w(2) ta by (intro match_heading_complete) simp_all
  then have "match_heading (h @ post) = Some ?a" by (subst post) simp
  then show ?thesis by blast
qed

lemma find_section_complete:
  "spec_heading_occurs s \<Longrightarrow> \<exists>sec. find_section s = Some sec"
proof -
  assume "spec_heading_occurs s"
  then obtain pre h post where s: "s = pre @ h @ post" and h: "spec_heading h"
    unfolding spec_heading_occurs_def by blast
  have "\<exists>sec. find_section (pre @ h @ post) = Some sec"
  proof (induction pre)
    case Nil
    obtain a where "match_heading (h @ post) = Some a" using match_heading_any[OF h] by blast
    then show ?case using find_section_at by simp
  next
    case (Cons c pre)
    then show ?case by (cases "match_heading (c # pre @ h @ post)") auto
  qed
  then show ?thesis using s by simp
qed

lemma find_section_None_iff: "find_section s = None \<longleftrightarrow> \<not> spec_heading_occurs s"
  using find_section_complete[of s] find_section_sound[of s]
  by (cases "find_section s") auto

lemma find_section_first:
  assumes h: "spec_heading h" and m: "CHR 0x0A \<notin> set (takeWhile is_space after)"
    and first: "\<not> (\<exists>p1 p2 h' post'. pre = p1 @ p2 \<and> p2 \<noteq> [] \<and>
                    p2 @ h @ after = h' @ post' \<and> spec_heading h')"
  shows "find_section (pre @ h @ after) = Some (until_heading after)"
proof -
  have "\<And>i. i < length pre \<Longrightarrow> match_heading (drop i (pre @ h @ after)) = None"
  proof -
    fix i assume i: "i < length pre"
    show "match_heading (drop i (pre @ h @ after)) = None"
    proof (cases "match_heading (drop i (pre @ h @ after))")
      case None
      then show ?thesis .
    next
      case (Some a')
      then obtain h' where h': "drop i (pre @ h @ after) = h' @ a'" "spec_heading h'"
        using match_heading_sound by blast
      have "pre = take i pre @ drop i pre \<and> drop i pre \<noteq> [] \<and>
            drop i pre @ h @ after = h' @ a' \<and> spec_heading h'"
        using i h' by simp
      then have False using first by blast
      then show ?thesis ..
    qed
  qed
  then have "find_section (pre @ h @ after) = find_section (h @ after)"
    by (rule find_section_skip)
  then show ?thesis
    using find_section_at[OF match_heading_complete[OF h m]] by simp
qed

text \<open>
  C7, as the code has it. \<^verbatim>\<open>parse_topics_from_response\<close> finds no section exactly when no
  heading occurs in the text, and then returns the empty sequence. When the text is
  \<open>pre\<close>, a heading \<open>h\<close> and \<open>after\<close>, where \<open>h\<close> ends with the last line feed of the
  whitespace after \<^verbatim>\<open>Explore\<close>, no heading begins within \<open>pre\<close>, and \<open>after\<close> does not begin
  with \<^verbatim>\<open>#\<close>, the topic lines are looked for in the lines of \<open>after\<close> up to, but not
  including, the first line that begins with \<^verbatim>\<open>#\<close>, whatever its level.
\<close>

theorem topics_section_region:
  "(find_section text = None \<longleftrightarrow> \<not> spec_heading_occurs text)
   \<and> (\<not> spec_heading_occurs text \<longrightarrow> parse_topics_from_response now text src = [])
   \<and> (\<forall>pre h after.
        text = pre @ h @ after \<and> spec_heading h \<and> CHR 0x0A \<notin> set (takeWhile is_space after)
        \<and> \<not> (\<exists>p1 p2 h' post'. pre = p1 @ p2 \<and> p2 \<noteq> [] \<and>
                  p2 @ h @ after = h' @ post' \<and> spec_heading h')
        \<and> \<not> startswith after ''#''
        \<longrightarrow> find_section text = Some (spec_region after)
            \<and> parse_topics_from_response now text src =
                map (topic_of_match now src) (finditer True (spec_region after)))"
proof -
  have a: "find_section text = None \<longleftrightarrow> \<not> spec_heading_occurs text"
    by (rule find_section_None_iff)
  have b: "\<not> spec_heading_occurs text \<longrightarrow> parse_topics_from_response now text src = []"
  proof
    assume "\<not> spec_heading_occurs text"
    then have "find_section text = None" using a by simp
    then show "parse_topics_from_response now text src = []"
      by (simp add: parse_topics_from_response_def)
  qed
  have c: "\<forall>pre h after.
        text = pre @ h @ after \<and> spec_heading h \<and> CHR 0x0A \<notin> set (takeWhile is_space after)
        \<and> \<not> (\<exists>p1 p2 h' post'. pre = p1 @ p2 \<and> p2 \<noteq> [] \<and>
                  p2 @ h @ after = h' @ post' \<and> spec_heading h')
        \<and> \<not> startswith after ''#''
        \<longrightarrow> find_section text = Some (spec_region after)
            \<and> parse_topics_from_response now text src =
                map (topic_of_match now src) (finditer True (spec_region after))"
  proof (intro allI impI, elim conjE)
    fix pre h after
    assume t: "text = pre @ h @ after" and h: "spec_heading h"
      and m: "CHR 0x0A \<notin> set (takeWhile is_space after)"
      and f: "\<not> (\<exists>p1 p2 h' post'. pre = p1 @ p2 \<and> p2 \<noteq> [] \<and>
                  p2 @ h @ after = h' @ post' \<and> spec_heading h')"
      and n: "\<not> startswith after ''#''"
    have "find_section text = Some (spec_region after)"
      unfolding t using find_section_first[OF h m f] until_heading_region[OF n] by simp
    then show "find_section text = Some (spec_region after)
            \<and> parse_topics_from_response now text src =
                map (topic_of_match now src) (finditer True (spec_region after))"
      by (simp add: parse_topics_from_response_def)
  qed
  show ?thesis using a b c by (intro conjI)
qed

lemma topics_heading: "spec_heading (''## Topics to Explore'' @ [CHR 0x0A])"
proof -
  have "''## Topics to Explore'' @ [CHR 0x0A] =
          ''##'' @ '' '' @ ''Topic'' @ ''s'' @ '' '' @ ''to'' @ '' '' @ ''Explore'' @ [] @ [CHR 0x0A]
        \<and> ''##'' \<noteq> [] \<and> (\<forall>c\<in>set ''##''. c = CHR ''#'')
        \<and> (\<forall>c\<in>set '' ''. is_space c)
        \<and> lower ''Topic'' = ''topic'' \<and> (''s'' = [] \<or> lower ''s'' = ''s'')
        \<and> '' '' \<noteq> [] \<and> (\<forall>c\<in>set '' ''. is_space c)
        \<and> lower ''to'' = ''to''
        \<and> '' '' \<noteq> [] \<and> (\<forall>c\<in>set '' ''. is_space c)
        \<and> lower ''Explore'' = ''explore''
        \<and> (\<forall>c\<in>set []. is_space c)"
    by code_simp
  then show ?thesis unfolding spec_heading_def by (intro exI)
qed

lemma nested_region:
  "spec_region nested_after = ''- [file] '' @ [CHR 0x60] @ ''a.py'' @ [CHR 0x60] @ '' - first''"
  by code_simp

lemma nested_first_line:
  "CHR 0x0A \<notin> set (takeWhile is_space nested_after) \<and> \<not> startswith nested_after ''#''"
  by code_simp

theorem topics_section_region_witness:
  "spec_heading (''## Topics to Explore'' @ [CHR 0x0A]) \<and>
   find_section nested_response =
     Some (''- [file] '' @ [CHR 0x60] @ ''a.py'' @ [CHR 0x60] @ '' - first'')"
proof -
  let ?h = "''## Topics to Explore'' @ [CHR 0x0A]"
  have first: "\<not> (\<exists>p1 p2 h' post'. [] = p1 @ p2 \<and> p2 \<noteq> [] \<and>
                  p2 @ ?h @ nested_after = h' @ post' \<and> spec_heading h')"
    by simp
  have t: "nested_response = [] @ ?h @ nested_after"
    by (simp add: nested_response_def)
  note T = topics_section_region[of nested_response "''n''" "''src''",
      THEN conjunct2, THEN conjunct2, THEN spec, THEN spec, THEN spec, of "[]" ?h nested_after]
  have "find_section nested_response = Some (spec_region nested_after)"
    using T t topics_heading nested_first_line first by (elim impE conjE) (intro conjI, assumption+)
  then show ?thesis using topics_heading by (simp add: nested_region)
qed

text \<open>
  C7 as stated fails: under a heading with two marks, a heading with three marks is of a
  lower level and would not end the region, which would then hold two topic lines. The
  source ends the region there and returns one topic.
\<close>

theorem lower_heading_counterexample:
  "find_section nested_response =
     Some (''- [file] '' @ [CHR 0x60] @ ''a.py'' @ [CHR 0x60] @ '' - first'')
   \<and> spec_claim_region 2 nested_after = nested_after
   \<and> length (parse_topics_from_response ''n'' nested_response ''src'') = 1
   \<and> length (finditer True (spec_claim_region 2 nested_after)) = 2"
  by code_simp

subsection \<open>Topic lines\<close>

lemma scan_rest_of_line:
  "CHR 0x0A \<notin> set l \<Longrightarrow> finditer False (l @ CHR 0x0A # rest) = finditer True rest"
  by (induction l) auto

lemma skip_line:
  assumes "CHR 0x0A \<notin> set l" "TOPIC_LINE_PATTERN (l @ CHR 0x0A # rest) = None"
  shows "finditer True (l @ CHR 0x0A # rest) = finditer True rest"
proof (cases l)
  case Nil
  then show ?thesis using assms(2) by simp
next
  case (Cons c l')
  then have "finditer True (l @ CHR 0x0A # rest) = finditer False (l' @ CHR 0x0A # rest)"
    using assms by auto
  then show ?thesis using scan_rest_of_line[of l' rest] assms(1) Cons by simp
qed

lemma many1_run:
  assumes "\<forall>c\<in>set run. P c" "\<not> P x"
  shows "many1 P (run @ x # post) = (if run = [] then None else Some (run, x # post))"
proof -
  have "takeWhile P (run @ x # post) = run @ takeWhile P (x # post)"
    using assms(1) by (intro takeWhile_append2) blast
  moreover have "dropWhile P (run @ x # post) = dropWhile P (x # post)"
    using assms(1) by (intro dropWhile_append2) blast
  ultimately show ?thesis using assms(2) by (simp add: many1_def)
qed

lemma not_space_bracket: "\<not> is_space (CHR ''['')" "\<not> is_word (CHR '']'')"
  by (simp_all add: is_space_def is_word_def)

lemma missing_kind:
  assumes "\<forall>c\<in>set w. is_space c" "\<not> is_space x" "x \<noteq> CHR ''[''"
  shows "TOPIC_LINE_PATTERN (m # w @ x # post) = None"
  using assms by (simp add: TOPIC_LINE_PATTERN_def many1_run)

lemma missing_target:
  assumes "\<forall>c\<in>set w. is_space c" "\<forall>c\<in>set k. is_word c" "\<forall>c\<in>set w2. is_space c"
    "\<not> is_space x" "x \<noteq> CHR 0x60"
  shows "TOPIC_LINE_PATTERN (m # w @ ''['' @ k @ '']'' @ w2 @ x # post) = None"
proof -
  have 1: "many1 is_space (w @ CHR ''['' # k @ CHR '']'' # w2 @ x # post) =
             (if w = [] then None else Some (w, CHR ''['' # k @ CHR '']'' # w2 @ x # post))"
    using assms(1) not_space_bracket(1) by (rule many1_run)
  have 2: "many1 is_word (k @ CHR '']'' # w2 @ x # post) =
             (if k = [] then None else Some (k, CHR '']'' # w2 @ x # post))"
    using assms(2) not_space_bracket(2) by (rule many1_run)
  have 3: "many1 is_space (w2 @ x # post) = (if w2 = [] then None else Some (w2, x # post))"
    using assms(3,4) by (rule many1_run)
  show ?thesis
    using assms(5) by (simp add: TOPIC_LINE_PATTERN_def 1 2 3)
qed

lemma char_facts:
  "is_space (CHR '' '')" "\<not> is_space (CHR ''-'')" "\<not> is_space (CHR 0x60)"
  "\<not> is_space (CHR ''['')" "\<not> is_word (CHR '']'')"
  by (simp_all add: is_space_def is_word_def)

lemma takeWhile_line:
  assumes "CHR 0x0A \<notin> set d" "rest = [] \<or> hd rest = CHR 0x0A"
  shows "takeWhile (\<lambda>c. c \<noteq> CHR 0x0A) (d @ rest) = d"
    and "dropWhile (\<lambda>c. c \<noteq> CHR 0x0A) (d @ rest) = rest"
proof -
  have r: "takeWhile (\<lambda>c. c \<noteq> CHR 0x0A) rest = []" "dropWhile (\<lambda>c. c \<noteq> CHR 0x0A) rest = rest"
    using assms(2) by (cases rest; simp)+
  have "takeWhile (\<lambda>c. c \<noteq> CHR 0x0A) (d @ rest) = d @ takeWhile (\<lambda>c. c \<noteq> CHR 0x0A) rest"
    using assms(1) by (intro takeWhile_append2) auto
  then show "takeWhile (\<lambda>c. c \<noteq> CHR 0x0A) (d @ rest) = d" using r by simp
  have "dropWhile (\<lambda>c. c \<noteq> CHR 0x0A) (d @ rest) = dropWhile (\<lambda>c. c \<noteq> CHR 0x0A) rest"
    using assms(1) by (intro dropWhile_append2) auto
  then show "dropWhile (\<lambda>c. c \<noteq> CHR 0x0A) (d @ rest) = rest" using r by simp
qed

lemma match_title_line:
  assumes "d \<noteq> []" "\<not> is_space (hd d)" "CHR 0x0A \<notin> set d" "rest = [] \<or> hd rest = CHR 0x0A"
  shows "match_title (CHR '' '' # d @ rest) = Some (d, rest)"
proof -
  obtain x d' where d: "d = x # d'" using assms(1) by (cases d) auto
  then have x: "\<not> is_space x" using assms(2) by simp
  have "takeWhile is_space (CHR '' '' # d @ rest) = '' ''"
       "dropWhile is_space (CHR '' '' # d @ rest) = d @ rest"
    using x d by (simp_all add: char_facts)
  then show ?thesis
    using assms(1) takeWhile_line[OF assms(3,4)] by (simp add: match_title_def Let_def)
qed

lemma match_sep_any:
  assumes "sep = em_dash \<or> sep = ''-'' \<or> sep = '':''"
  shows "match_sep (sep @ s) = Some s" and "dropWhile is_space (CHR '' '' # sep @ s) = sep @ s"
  using assms by (auto simp: match_sep_def em_dash_def lit_Some_iff is_space_def)

lemma TOPIC_LINE_PATTERN_line:
  assumes "sep = em_dash \<or> sep = ''-'' \<or> sep = '':''" "k \<noteq> []" "\<forall>c\<in>set k. is_word c" "tg \<noteq> []" "CHR 0x60 \<notin> set tg"
    "d \<noteq> []" "\<not> is_space (hd d)" "CHR 0x0A \<notin> set d" "rest = [] \<or> hd rest = CHR 0x0A"
  shows "TOPIC_LINE_PATTERN (''- ['' @ k @ ''] '' @ [CHR 0x60] @ tg @ [CHR 0x60] @ '' '' @ sep @ '' '' @ d @ rest) =
           Some (k, tg, d, rest)"
proof -
  let ?s8 = "CHR 0x60 # CHR '' '' # sep @ CHR '' '' # d @ rest"
  let ?s6 = "CHR 0x60 # tg @ ?s8"
  let ?s4 = "CHR '']'' # CHR '' '' # ?s6"
  have 1: "many1 is_space (CHR '' '' # CHR ''['' # k @ ?s4) = Some ('' '', CHR ''['' # k @ ?s4)"
    using many1_run[of "'' ''" is_space "CHR ''[''" "k @ ?s4"] by (simp add: char_facts)
  have 2: "many1 is_word (k @ ?s4) = Some (k, ?s4)"
    using many1_run[of k is_word "CHR '']''" "CHR '' '' # ?s6"] assms(2,3) by (simp add: char_facts)
  have 3: "many1 is_space (CHR '' '' # ?s6) = Some ('' '', ?s6)"
    using many1_run[of "'' ''" is_space "CHR 0x60" "tg @ ?s8"] by (simp add: char_facts)
  have 4: "many1 (\<lambda>c. c \<noteq> CHR 0x60) (tg @ ?s8) = Some (tg, ?s8)"
    using many1_run[of tg "\<lambda>c. c \<noteq> CHR 0x60" "CHR 0x60" "CHR '' '' # sep @ CHR '' '' # d @ rest"]
      assms(4,5) by auto
  show ?thesis
    using match_sep_any[OF assms(1), of "CHR '' '' # d @ rest"]
    by (simp add: TOPIC_LINE_PATTERN_def 1 2 3 4 match_title_line[OF assms(6,7,8,9)] del: dropWhile.simps)
qed

lemma topic_of_match_kind:
  "kind (topic_of_match now src (k, tg, d)) =
     (if lower k \<in> set TOPIC_KINDS then lower k else ''general'')"
  "target (topic_of_match now src (k, tg, d)) = tg"
  "kind (topic_of_match now src m) \<in> set TOPIC_KINDS"
  by (cases m; simp add: topic_of_match_def TOPIC_KINDS_def)+

text \<open>
  A topic line of the expected shape, with any of the three separators, gives one topic
  whatever its kind token is: the token in lower case when that is one of the five kinds,
  and \<^verbatim>\<open>general\<close> otherwise. Every topic the parser returns has one of the five kinds.
\<close>

theorem bullet_kind_normalized:
  assumes "sep = em_dash \<or> sep = ''-'' \<or> sep = '':''" "k \<noteq> []" "\<forall>c\<in>set k. is_word c" "tg \<noteq> []" "CHR 0x60 \<notin> set tg"
    "d \<noteq> []" "\<not> is_space (hd d)" "CHR 0x0A \<notin> set d" "rest = [] \<or> hd rest = CHR 0x0A"
  shows "map (topic_of_match now src)
           (finditer True
              (''- ['' @ k @ ''] '' @ [CHR 0x60] @ tg @ [CHR 0x60] @ '' '' @ sep @ '' '' @ d @ rest)) =
         topic_of_match now src (k, tg, d) # map (topic_of_match now src) (finditer False rest)
       \<and> kind (topic_of_match now src (k, tg, d)) =
           (if lower k \<in> set TOPIC_KINDS then lower k else ''general'')
       \<and> (\<forall>t\<in>set (parse_topics_from_response now response src). kind t \<in> set TOPIC_KINDS)"
proof -
  have "finditer True
          (''- ['' @ k @ ''] '' @ [CHR 0x60] @ tg @ [CHR 0x60] @ '' '' @ sep @ '' '' @ d @ rest) =
        (k, tg, d) # finditer False rest"
    using TOPIC_LINE_PATTERN_line[OF assms] by simp
  moreover have "\<forall>t\<in>set (parse_topics_from_response now response src). kind t \<in> set TOPIC_KINDS"
    by (auto simp: parse_topics_from_response_def topic_of_match_kind(3) split: option.splits)
  ultimately show ?thesis using topic_of_match_kind(1)[of now src k tg d] by simp
qed

theorem bullet_kind_normalized_witness:
  "map (topic_of_match ''n'' ''src'')
     (finditer True (''- [Bogus] '' @ [CHR 0x60] @ ''b'' @ [CHR 0x60] @ '' '' @ em_dash @ '' desc2'')) =
   [\<lparr>title = ''desc2'', kind = ''general'', target = ''b'', source = ''src'',
     status = ''pending'', added = ''n''\<rparr>]"
proof -
  have a: "em_dash = em_dash \<or> em_dash = ''-'' \<or> em_dash = '':''" by simp
  have b: "''Bogus'' \<noteq> []" "\<forall>c\<in>set ''Bogus''. is_word c" "''b'' \<noteq> []" "CHR 0x60 \<notin> set ''b''"
    "''desc2'' \<noteq> []" "\<not> is_space (hd ''desc2'')" "CHR 0x0A \<notin> set ''desc2''"
    "[] = [] \<or> hd [] = CHR 0x0A"
    by (simp_all add: is_word_def is_space_def)
  have c: "topic_of_match ''n'' ''src'' (''Bogus'', ''b'', ''desc2'') =
           \<lparr>title = ''desc2'', kind = ''general'', target = ''b'', source = ''src'',
             status = ''pending'', added = ''n''\<rparr>"
    by code_simp
  show ?thesis
    using bullet_kind_normalized[OF a b, of "''n''" "''src''", THEN conjunct1] c by simp
qed

text \<open>
  A line on which, after the marker and whitespace, something other than the opening
  bracket stands, or on which, after the bracketed kind and whitespace, something other
  than a backtick stands, is passed over: the matches of the section are those of the
  text after the line.
\<close>

theorem malformed_line_skipped:
  assumes "\<forall>c\<in>set w. is_space c" "\<forall>c\<in>set k. is_word c" "\<forall>c\<in>set w2. is_space c"
    "\<not> is_space x" "CHR 0x0A \<notin> set (m # w @ k @ w2 @ x # post)"
  shows "(x \<noteq> CHR ''['' \<longrightarrow>
           finditer True ((m # w @ x # post) @ CHR 0x0A # rest) = finditer True rest)
       \<and> (x \<noteq> CHR 0x60 \<longrightarrow>
           finditer True ((m # w @ ''['' @ k @ '']'' @ w2 @ x # post) @ CHR 0x0A # rest) =
           finditer True rest)"
proof -
  have n1: "CHR 0x0A \<notin> set (m # w @ x # post)" using assms(5) by auto
  have n2: "CHR 0x0A \<notin> set (m # w @ ''['' @ k @ '']'' @ w2 @ x # post)" using assms(5) by auto
  have 1: "x \<noteq> CHR ''['' \<longrightarrow>
           finditer True ((m # w @ x # post) @ CHR 0x0A # rest) = finditer True rest"
  proof
    assume "x \<noteq> CHR ''[''"
    then have "TOPIC_LINE_PATTERN ((m # w @ x # post) @ CHR 0x0A # rest) = None"
      using missing_kind[OF assms(1,4), of m "post @ CHR 0x0A # rest"] by simp
    then show "finditer True ((m # w @ x # post) @ CHR 0x0A # rest) = finditer True rest"
      using n1 by (intro skip_line)
  qed
  have 2: "x \<noteq> CHR 0x60 \<longrightarrow>
           finditer True ((m # w @ ''['' @ k @ '']'' @ w2 @ x # post) @ CHR 0x0A # rest) =
           finditer True rest"
  proof
    assume "x \<noteq> CHR 0x60"
    then have "TOPIC_LINE_PATTERN ((m # w @ ''['' @ k @ '']'' @ w2 @ x # post) @ CHR 0x0A # rest) = None"
      using missing_target[OF assms(1,2,3,4), of m "post @ CHR 0x0A # rest"] by simp
    then show "finditer True ((m # w @ ''['' @ k @ '']'' @ w2 @ x # post) @ CHR 0x0A # rest) =
           finditer True rest"
      using n2 by (intro skip_line)
  qed
  show ?thesis using 1 2 by (rule conjI)
qed

theorem malformed_line_skipped_witness:
  "finditer True (''- [file] a.py - d'' @ CHR 0x0A # ''- [repo] '' @ [CHR 0x60] @ ''r'' @ [CHR 0x60] @ '' - ok'') =
   finditer True (''- [repo] '' @ [CHR 0x60] @ ''r'' @ [CHR 0x60] @ '' - ok'')"
proof -
  have a: "\<forall>c\<in>set '' ''. is_space c" "\<forall>c\<in>set ''file''. is_word c" "\<forall>c\<in>set '' ''. is_space c"
    "\<not> is_space (CHR ''a'')"
    "CHR 0x0A \<notin> set (CHR ''-'' # '' '' @ ''file'' @ '' '' @ CHR ''a'' # ''.py - d'')"
    by (simp_all add: is_word_def is_space_def)
  have b: "CHR ''a'' \<noteq> CHR 0x60" by simp
  show ?thesis
    using malformed_line_skipped[OF a, THEN conjunct2, THEN mp, OF b] by simp
qed

text \<open>
  C8 on a topic line that ends after its kind. The line has no target, and the source
  still returns a topic for it: \<^verbatim>\<open>\s+\<close> in the pattern runs over the line feed, and the
  target and the title are taken from the following line.
\<close>

theorem wrapped_bullet_evaluation:
  "find_section wrapped_response =
     Some (join_lines [''- [file]'', [CHR 0x60] @ ''b.py'' @ [CHR 0x60] @ '' - d2'', ''''])
   \<and> parse_topics_from_response ''n'' wrapped_response ''src'' =
       [\<lparr>title = ''d2'', kind = ''file'', target = ''b.py'', source = ''src'',
         status = ''pending'', added = ''n''\<rparr>]"
  by code_simp

end
